theory Spec2Isabelle
  imports Main "HOL-Library.Word"
begin

section \<open>Text, digests and JSON documents\<close>

text \<open>
  The program is \<^verbatim>\<open>src/Zit.mjs\<close>. Its strings are modelled as \<^typ>\<open>string\<close>, one
  \<^typ>\<open>char\<close> per code unit; the alphabet is the code units below 256. Files hold text:
  \<^verbatim>\<open>fs.writeFile\<close> of a string followed by \<^verbatim>\<open>fs.readFile\<close> with encoding utf-8
  gives the string back.
\<close>

type_synonym byte = "8 word"

text \<open>\<^verbatim>\<open>String.prototype.trim\<close> removes white space and line terminators; below 256
  these are TAB, LF, VT, FF, CR, SP and NBSP.\<close>

definition js_space :: "char \<Rightarrow> bool" where
  "js_space c = (c = CHR 0x09 \<or> c = CHR 0x0A \<or> c = CHR 0x0B \<or> c = CHR 0x0C
     \<or> c = CHR 0x0D \<or> c = CHR 0x20 \<or> c = CHR 0xA0)"

definition trim :: "string \<Rightarrow> string" where
  "trim s = rev (dropWhile js_space (rev (dropWhile js_space s)))"

text \<open>The utf-8 encoding that \<^verbatim>\<open>update(content, 'utf-8')\<close> hashes.\<close>

definition utf8_char :: "char \<Rightarrow> byte list" where
  "utf8_char c = (let n = of_char c :: int in
     if n < 128 then [word_of_int n]
     else [word_of_int (192 + n div 64), word_of_int (128 + n mod 64)])"

definition utf8 :: "string \<Rightarrow> byte list" where
  "utf8 s = concat (map utf8_char s)"

definition hexdigit :: "int \<Rightarrow> char" where
  "hexdigit n = (if n < 10 then char_of (48 + n) else char_of (87 + n))"

fun hex_digits :: "nat \<Rightarrow> int \<Rightarrow> string" where
  "hex_digits 0 v = []"
| "hex_digits (Suc k) v = hex_digits k (v div 16) @ [hexdigit (v mod 16)]"

text \<open>\<^verbatim>\<open>digest('hex')\<close>: the 160 bits of a SHA-1 digest as 40 lower-case hex digits.\<close>

definition digest_hex :: "160 word \<Rightarrow> string" where
  "digest_hex d = hex_digits 40 (uint d)"

text \<open>
  \<^verbatim>\<open>hashObject\<close> (lines 30-32). The SHA-1 compression itself belongs to Node's crypto
  library and is the parameter \<open>sha1\<close>, a function from the bytes to the 160-bit digest.
\<close>

definition hashObject :: "(byte list \<Rightarrow> 160 word) \<Rightarrow> string \<Rightarrow> string" where
  "hashObject sha1 content = digest_hex (sha1 (utf8 content))"

text \<open>A digest function for running the model on concrete inputs: the bytes read as
  one number in base 257, cut to 160 bits.\<close>

definition radix_digest :: "byte list \<Rightarrow> 160 word" where
  "radix_digest bs = word_of_int (foldl (\<lambda>a b. a * 257 + uint b + 1) 0 bs)"

subsection \<open>JSON values\<close>

text \<open>
  The values \<^verbatim>\<open>JSON.parse\<close> returns, without numbers: the program writes none, and
  their value is a double. An object is its properties in insertion order.
\<close>

datatype json = JNull | JBool bool | JStr string | JArr "json list" | JObj "(string \<times> json) list"

text \<open>Assignment \<^verbatim>\<open>o[k] = v\<close>: an existing property keeps its place.\<close>

fun obj_set :: "(string \<times> json) list \<Rightarrow> string \<Rightarrow> json \<Rightarrow> (string \<times> json) list" where
  "obj_set [] k v = [(k, v)]"
| "obj_set ((k', v') # kvs) k v = (if k' = k then (k, v) # kvs else (k', v') # obj_set kvs k v)"

text \<open>Property read \<^verbatim>\<open>x.k\<close> for the names the program reads (none of them is a
  built-in property): \<open>Inl TypeError\<close> on null, \<open>Inr None\<close> for undefined.\<close>

datatype error = TypeError | SyntaxError | ENOENT

fun get_prop :: "json \<Rightarrow> string \<Rightarrow> error + json option" where
  "get_prop JNull k = Inl TypeError"
| "get_prop (JObj kvs) k = Inr (map_of kvs k)"
| "get_prop _ k = Inr None"

text \<open>Truthiness of a value or undefined.\<close>

fun truthy :: "json option \<Rightarrow> bool" where
  "truthy None = False"
| "truthy (Some JNull) = False"
| "truthy (Some (JBool b)) = b"
| "truthy (Some (JStr s)) = (s \<noteq> [])"
| "truthy (Some _) = True"

subsection \<open>JSON.stringify\<close>

definition quote_char :: "char \<Rightarrow> string" where
  "quote_char c = (
     if c = CHR 0x22 then [CHR 0x5C, CHR 0x22]
     else if c = CHR 0x5C then [CHR 0x5C, CHR 0x5C]
     else if c = CHR 0x08 then [CHR 0x5C, CHR ''b'']
     else if c = CHR 0x09 then [CHR 0x5C, CHR ''t'']
     else if c = CHR 0x0A then [CHR 0x5C, CHR ''n'']
     else if c = CHR 0x0C then [CHR 0x5C, CHR ''f'']
     else if c = CHR 0x0D then [CHR 0x5C, CHR ''r'']
     else if (of_char c :: int) < 32 then [CHR 0x5C, CHR ''u''] @ hex_digits 4 (of_char c)
     else [c])"

definition quote :: "string \<Rightarrow> string" where
  "quote s = [CHR 0x22] @ concat (map quote_char s) @ [CHR 0x22]"

fun join :: "string \<Rightarrow> string list \<Rightarrow> string" where
  "join sep [] = []"
| "join sep [x] = x"
| "join sep (x # y # ys) = x @ sep @ join sep (y # ys)"

text \<open>\<^verbatim>\<open>JSON.stringify(v)\<close>: no white space.\<close>

fun JSON_stringify :: "json \<Rightarrow> string" where
  "JSON_stringify JNull = ''null''"
| "JSON_stringify (JBool b) = (if b then ''true'' else ''false'')"
| "JSON_stringify (JStr s) = quote s"
| "JSON_stringify (JArr vs) = ''['' @ join '','' (map JSON_stringify vs) @ '']''"
| "JSON_stringify (JObj kvs) =
     ''{'' @ join '','' (map (\<lambda>(k, v). quote k @ '':'' @ JSON_stringify v) kvs) @ ''}''"

text \<open>\<^verbatim>\<open>JSON.stringify(v, null, 2)\<close>: one element or property per line, two more
  spaces at each level; \<open>ind\<close> is the indentation of the enclosing line.\<close>

definition newline :: "nat \<Rightarrow> string" where
  "newline ind = CHR 0x0A # replicate ind CHR '' ''"

fun stringify_indent :: "nat \<Rightarrow> json \<Rightarrow> string" where
  "stringify_indent ind JNull = ''null''"
| "stringify_indent ind (JBool b) = (if b then ''true'' else ''false'')"
| "stringify_indent ind (JStr s) = quote s"
| "stringify_indent ind (JArr vs) = (if vs = [] then ''[]'' else
     ''['' @ newline (ind + 2)
       @ join ('','' @ newline (ind + 2)) (map (stringify_indent (ind + 2)) vs)
       @ newline ind @ '']'')"
| "stringify_indent ind (JObj kvs) = (if kvs = [] then ''{}'' else
     ''{'' @ newline (ind + 2)
       @ join ('','' @ newline (ind + 2))
           (map (\<lambda>(k, v). quote k @ '': '' @ stringify_indent (ind + 2) v) kvs)
       @ newline ind @ ''}'')"

definition JSON_stringify2 :: "json \<Rightarrow> string" where
  "JSON_stringify2 v = stringify_indent 0 v"

subsection \<open>JSON.parse\<close>

definition json_ws :: "char \<Rightarrow> bool" where
  "json_ws c = (c = CHR 0x20 \<or> c = CHR 0x09 \<or> c = CHR 0x0A \<or> c = CHR 0x0D)"

definition skip_ws :: "string \<Rightarrow> string" where
  "skip_ws s = dropWhile json_ws s"

definition hexval :: "char \<Rightarrow> int option" where
  "hexval c = (let n = of_char c :: int in
     if 48 \<le> n \<and> n \<le> 57 then Some (n - 48)
     else if 97 \<le> n \<and> n \<le> 102 then Some (n - 87)
     else if 65 \<le> n \<and> n \<le> 70 then Some (n - 55)
     else None)"

definition unescape :: "char \<Rightarrow> char option" where
  "unescape e = (
     if e = CHR 0x22 then Some (CHR 0x22)
     else if e = CHR 0x5C then Some (CHR 0x5C)
     else if e = CHR ''/'' then Some (CHR ''/'')
     else if e = CHR ''b'' then Some (CHR 0x08)
     else if e = CHR ''f'' then Some (CHR 0x0C)
     else if e = CHR ''n'' then Some (CHR 0x0A)
     else if e = CHR ''r'' then Some (CHR 0x0D)
     else if e = CHR ''t'' then Some (CHR 0x09)
     else None)"

definition hex4 :: "char \<Rightarrow> char \<Rightarrow> char \<Rightarrow> char \<Rightarrow> int option" where
  "hex4 a b c d = (case (hexval a, hexval b, hexval c, hexval d) of
     (Some w, Some x, Some y, Some z) \<Rightarrow> Some (((w * 16 + x) * 16 + y) * 16 + z)
   | _ \<Rightarrow> None)"

text \<open>The characters of a string literal after its opening quote, up to and including
  the closing quote; the result is the string and the rest of the input. An escape
  \<^verbatim>\<open>\uXXXX\<close> above 00ff leaves the alphabet of the model and is turned down.\<close>

fun parse_chars :: "string \<Rightarrow> (string \<times> string) option" where
  "parse_chars [] = None"
| "parse_chars (c # cs) = (
     if c = CHR 0x22 then Some ([], cs)
     else if c = CHR 0x5C then (case cs of
         [] \<Rightarrow> None
       | e # r \<Rightarrow>
           if e = CHR ''u'' then (case r of
               a # b # x # y # r' \<Rightarrow> (case hex4 a b x y of
                   None \<Rightarrow> None
                 | Some n \<Rightarrow> if n < 256
                     then (case parse_chars r' of None \<Rightarrow> None
                           | Some (s, rest) \<Rightarrow> Some (char_of n # s, rest))
                     else None)
             | _ \<Rightarrow> None)
           else (case unescape e of
               None \<Rightarrow> None
             | Some d \<Rightarrow> (case parse_chars r of None \<Rightarrow> None
                          | Some (s, rest) \<Rightarrow> Some (d # s, rest))))
     else if (of_char c :: int) < 32 then None
     else (case parse_chars cs of None \<Rightarrow> None | Some (s, rest) \<Rightarrow> Some (c # s, rest)))"

text \<open>
  Recursive descent over the text. The first argument bounds the number of nested
  calls; every call but the first follows at least one consumed character, so the
  length of the text is enough. \<open>None\<close> is the SyntaxError of \<^verbatim>\<open>JSON.parse\<close>, and
  also the answer to a number literal. A repeated property name keeps its last value.
\<close>

fun parse_value :: "nat \<Rightarrow> string \<Rightarrow> (json \<times> string) option"
  and parse_elements :: "nat \<Rightarrow> json list \<Rightarrow> string \<Rightarrow> (json \<times> string) option"
  and parse_members :: "nat \<Rightarrow> (string \<times> json) list \<Rightarrow> string \<Rightarrow> (json \<times> string) option"
where
  "parse_value 0 s = None"
| "parse_value (Suc n) s = (case skip_ws s of
       [] \<Rightarrow> None
     | c # r \<Rightarrow>
         if c = CHR 0x22 then (case parse_chars r of
             None \<Rightarrow> None
           | Some (str, r') \<Rightarrow> Some (JStr str, r'))
         else if c = CHR ''['' then (case skip_ws r of
             [] \<Rightarrow> None
           | d # r' \<Rightarrow> if d = CHR '']'' then Some (JArr [], r') else parse_elements n [] r)
         else if c = CHR ''{'' then (case skip_ws r of
             [] \<Rightarrow> None
           | d # r' \<Rightarrow> if d = CHR ''}'' then Some (JObj [], r') else parse_members n [] r)
         else if take 4 (c # r) = ''null'' then Some (JNull, drop 3 r)
         else if take 4 (c # r) = ''true'' then Some (JBool True, drop 3 r)
         else if take 5 (c # r) = ''false'' then Some (JBool False, drop 4 r)
         else None)"
| "parse_elements 0 acc s = None"
| "parse_elements (Suc n) acc s = (case parse_value n s of
       None \<Rightarrow> None
     | Some (v, r) \<Rightarrow> (case skip_ws r of
           [] \<Rightarrow> None
         | c # r' \<Rightarrow>
             if c = CHR '','' then parse_elements n (acc @ [v]) r'
             else if c = CHR '']'' then Some (JArr (acc @ [v]), r')
             else None))"
| "parse_members 0 acc s = None"
| "parse_members (Suc n) acc s = (case skip_ws s of
       [] \<Rightarrow> None
     | c # r \<Rightarrow>
         if c \<noteq> CHR 0x22 then None
         else (case parse_chars r of
             None \<Rightarrow> None
           | Some (k, r1) \<Rightarrow> (case skip_ws r1 of
                 [] \<Rightarrow> None
               | d # r2 \<Rightarrow>
                   if d \<noteq> CHR '':'' then None
                   else (case parse_value n r2 of
                       None \<Rightarrow> None
                     | Some (v, r3) \<Rightarrow> (case skip_ws r3 of
                           [] \<Rightarrow> None
                         | e # r4 \<Rightarrow>
                             if e = CHR '','' then parse_members n (obj_set acc k v) r4
                             else if e = CHR ''}'' then Some (JObj (obj_set acc k v), r4)
                             else None)))))"

definition JSON_parse :: "string \<Rightarrow> json option" where
  "JSON_parse s = (case parse_value (Suc (length s)) s of
       None \<Rightarrow> None
     | Some (v, r) \<Rightarrow> if skip_ws r = [] then Some v else None)"

section \<open>The repository and its operations\<close>

text \<open>
  The files the program touches: the working files read by \<^verbatim>\<open>add\<close> (by the path
  given on the command line), the directory \<^verbatim>\<open>.zit/objects\<close> (by file name),
  \<^verbatim>\<open>.zit/HEAD\<close> and \<^verbatim>\<open>.zit/index\<close>; \<open>None\<close> is a file that does not exist, and
  reading it throws. A write succeeds. \<open>written\<close> records, oldest first, the names of
  the object files that have been written. Object names are plain file names, so that
  \<^verbatim>\<open>path.join(objectsPath, name)\<close> is one file per name.
\<close>

record repo =
  work :: "string \<rightharpoonup> string"
  objects :: "string \<rightharpoonup> string"
  head :: "string option"
  index :: "string option"
  written :: "string list"

definition empty_repo :: "(string \<rightharpoonup> string) \<Rightarrow> repo" where
  "empty_repo w = \<lparr>work = w, objects = Map.empty, head = None, index = None, written = []\<rparr>"

text \<open>\<^verbatim>\<open>init\<close> (lines 20-28): both writes have flag \<^verbatim>\<open>wx\<close>, and the first one that
  finds its file leaves the \<^verbatim>\<open>try\<close> block.\<close>

definition init :: "repo \<Rightarrow> repo" where
  "init s = (case head s of
       Some _ \<Rightarrow> s
     | None \<Rightarrow> (case index s of
           Some _ \<Rightarrow> s\<lparr>head := Some []\<rparr>
         | None \<Rightarrow> s\<lparr>head := Some [], index := Some (JSON_stringify2 (JArr []))\<rparr>))"

text \<open>\<^verbatim>\<open>getCurrentHead\<close> (lines 103-110).\<close>

definition getCurrentHead :: "repo \<Rightarrow> string option" where
  "getCurrentHead s = (case head s of
       None \<Rightarrow> None
     | Some h \<Rightarrow> if trim h = [] then None else Some (trim h))"

text \<open>\<^verbatim>\<open>getCommitData\<close> (lines 197-206) and \<^verbatim>\<open>getFileContent\<close> (lines 208-217):
  the text of the object file, \<open>None\<close> when reading fails.\<close>

definition getCommitData :: "repo \<Rightarrow> string \<Rightarrow> string option" where
  "getCommitData s commitHash = objects s commitHash"

definition getFileContent :: "repo \<Rightarrow> string \<Rightarrow> string option" where
  "getFileContent s fileHash = objects s fileHash"

text \<open>Strict equality \<^verbatim>\<open>===\<close> of two values read from parsed documents (\<open>None\<close> is
  undefined); two arrays or objects are never the same reference.\<close>

fun strict_eq :: "json option \<Rightarrow> json option \<Rightarrow> bool" where
  "strict_eq None None = True"
| "strict_eq (Some JNull) (Some JNull) = True"
| "strict_eq (Some (JBool a)) (Some (JBool b)) = (a = b)"
| "strict_eq (Some (JStr a)) (Some (JStr b)) = (a = b)"
| "strict_eq _ _ = False"

text \<open>\<^verbatim>\<open>entries.find(entry => entry.path === filePath)\<close>, as the position of the entry
  found: reading \<^verbatim>\<open>.path\<close> of a null entry throws.\<close>

fun find_path :: "json option \<Rightarrow> json list \<Rightarrow> error + nat option" where
  "find_path p [] = Inr None"
| "find_path p (e # es) = (case get_prop e ''path'' of
       Inl err \<Rightarrow> Inl err
     | Inr v \<Rightarrow> if strict_eq v p then Inr (Some 0)
         else (case find_path p es of
             Inl err \<Rightarrow> Inl err
           | Inr None \<Rightarrow> Inr None
           | Inr (Some i) \<Rightarrow> Inr (Some (Suc i))))"

text \<open>\<^verbatim>\<open>existingIndex.hash = fileHash\<close>.\<close>

fun set_hash :: "json \<Rightarrow> string \<Rightarrow> json" where
  "set_hash (JObj kvs) h = JObj (obj_set kvs ''hash'' (JStr h))"
| "set_hash v h = v"

definition entry :: "string \<Rightarrow> string \<Rightarrow> json" where
  "entry p h = JObj [(''path'', JStr p), (''hash'', JStr h)]"

text \<open>\<^verbatim>\<open>updateStagingArea\<close> (lines 56-71). Every exception is caught and logged, and
  the index file is written in the last statement of the \<^verbatim>\<open>try\<close> block only.\<close>

definition updateStagingArea :: "string \<Rightarrow> string \<Rightarrow> repo \<Rightarrow> repo" where
  "updateStagingArea filePath fileHash s = (case index s of
       None \<Rightarrow> s
     | Some indexRaw \<Rightarrow> (case JSON_parse indexRaw of
           Some (JArr es) \<Rightarrow> (case find_path (Some (JStr filePath)) es of
               Inl err \<Rightarrow> s
             | Inr (Some i) \<Rightarrow>
                 if truthy (Some (es ! i))
                 then s\<lparr>index := Some (JSON_stringify2 (JArr (es[i := set_hash (es ! i) fileHash])))\<rparr>
                 else s\<lparr>index := Some (JSON_stringify2 (JArr (es @ [entry filePath fileHash])))\<rparr>
             | Inr None \<Rightarrow>
                 s\<lparr>index := Some (JSON_stringify2 (JArr (es @ [entry filePath fileHash])))\<rparr>)
         | _ \<Rightarrow> s))"

text \<open>\<^verbatim>\<open>add\<close> (lines 34-54). The result is the digest printed after \<^verbatim>\<open>File Hash:\<close>,
  or \<open>None\<close> when the file cannot be read.\<close>

definition add :: "(byte list \<Rightarrow> 160 word) \<Rightarrow> string \<Rightarrow> repo \<Rightarrow> string option \<times> repo" where
  "add sha1 fileToBeAdded s = (case work s fileToBeAdded of
       None \<Rightarrow> (None, s)
     | Some fileData \<Rightarrow>
         let fileHash = hashObject sha1 fileData;
             s1 = (case objects s fileHash of
                 Some _ \<Rightarrow> s
               | None \<Rightarrow> s\<lparr>objects := (objects s)(fileHash \<mapsto> fileData),
                            written := written s @ [fileHash]\<rparr>)
         in (Some fileHash, updateStagingArea fileToBeAdded fileHash s1))"

text \<open>\<^verbatim>\<open>index.length === 0\<close> on a parsed document: an array or a string has a
  length; on null the read throws; no other value of the model has the number 0 there.\<close>

fun length_is_0 :: "json \<Rightarrow> error + bool" where
  "length_is_0 JNull = Inl TypeError"
| "length_is_0 (JArr vs) = Inr (vs = [])"
| "length_is_0 (JStr s) = Inr (s = [])"
| "length_is_0 _ = Inr False"

text \<open>What \<^verbatim>\<open>commit\<close> prints: \<^verbatim>\<open>Nothing to commit. Staging area is empty.\<close>, or
  \<^verbatim>\<open>Commit successfully created:\<close> with the digest, or \<^verbatim>\<open>Failed to create commit:\<close>
  with the exception caught.\<close>

datatype commit_outcome = NothingToCommit | Committed string | CommitFailed error

definition commit_record :: "string \<Rightarrow> string \<Rightarrow> json \<Rightarrow> string option \<Rightarrow> json" where
  "commit_record timeStamp message files parent = JObj
     [(''timeStamp'', JStr timeStamp), (''message'', JStr message), (''files'', files),
      (''parent'', case parent of None \<Rightarrow> JNull | Some p \<Rightarrow> JStr p)]"

text \<open>\<^verbatim>\<open>commit\<close> (lines 73-101); \<open>now\<close> is \<^verbatim>\<open>new Date().toISOString()\<close>.\<close>

definition commit ::
  "(byte list \<Rightarrow> 160 word) \<Rightarrow> string \<Rightarrow> string \<Rightarrow> repo \<Rightarrow> commit_outcome \<times> repo" where
  "commit sha1 now message s = (case index s of
       None \<Rightarrow> (CommitFailed ENOENT, s)
     | Some indexRaw \<Rightarrow> (case JSON_parse indexRaw of
           None \<Rightarrow> (CommitFailed SyntaxError, s)
         | Some idx \<Rightarrow> (case length_is_0 idx of
               Inl err \<Rightarrow> (CommitFailed err, s)
             | Inr True \<Rightarrow> (NothingToCommit, s)
             | Inr False \<Rightarrow>
                 let parentCommit = getCurrentHead s;
                     commitData = commit_record now message idx parentCommit;
                     commitHash = hashObject sha1 (JSON_stringify commitData)
                 in (Committed commitHash,
                     s\<lparr>objects := (objects s)(commitHash \<mapsto> JSON_stringify2 commitData),
                       written := written s @ [commitHash],
                       head := Some commitHash,
                       index := Some (JSON_stringify2 (JArr []))\<rparr>))))"

text \<open>
  \<^verbatim>\<open>log\<close> (lines 112-137). The lines printed for a commit, and how the walk ended:
  at a parent that is not truthy, at a commit whose data is not found, or in the
  \<^verbatim>\<open>catch\<close> block. The loop has no bound of its own: \<open>None\<close> is a walk that never ends.
\<close>

datatype log_line = Commit string | Date "json option" | Message "json option"

datatype log_end = NoCommits | Root | NotFound string | LogFailed error

partial_function (option) log_walk ::
  "repo \<Rightarrow> json option \<Rightarrow> log_line list \<Rightarrow> (log_line list \<times> log_end) option" where
  "log_walk s currentCommitHash out = (
     if \<not> truthy currentCommitHash then Some (out, Root)
     else (case currentCommitHash of
         Some (JStr h) \<Rightarrow> (case getCommitData s h of
             None \<Rightarrow> Some (out, NotFound h)
           | Some commitDataRaw \<Rightarrow>
               if commitDataRaw = [] then Some (out, NotFound h)
               else (case JSON_parse commitDataRaw of
                   None \<Rightarrow> Some (out, LogFailed SyntaxError)
                 | Some commitData \<Rightarrow> (case get_prop commitData ''timeStamp'' of
                       Inl err \<Rightarrow> Some (out @ [Commit h], LogFailed err)
                     | Inr ts \<Rightarrow> (case get_prop commitData ''message'' of
                           Inl err \<Rightarrow> Some (out @ [Commit h, Date ts], LogFailed err)
                         | Inr msg \<Rightarrow> (case get_prop commitData ''parent'' of
                               Inl err \<Rightarrow> Some (out @ [Commit h, Date ts, Message msg], LogFailed err)
                             | Inr parent \<Rightarrow>
                                 log_walk s parent (out @ [Commit h, Date ts, Message msg]))))))
       | _ \<Rightarrow> Some (out, LogFailed TypeError)))"

definition log :: "repo \<Rightarrow> (log_line list \<times> log_end) option" where
  "log s = (case getCurrentHead s of
       None \<Rightarrow> Some ([], NoCommits)
     | Some h \<Rightarrow> log_walk s (Some (JStr h)) [])"

section \<open>Differences between a commit and its parent\<close>

text \<open>
  Modelled from the spec: \<^verbatim>\<open>diffLines\<close> is imported from the package \<^verbatim>\<open>diff\<close>, whose
  code is not part of the repository. The spec (4.4) describes it as a line-oriented
  edit script from the old text to the new one, computed from a longest common
  subsequence of the lines, in which a run of parts of one kind is one part. A line
  keeps its line terminator.
\<close>

datatype kind = Equal | Inserted | Removed

type_synonym part = "kind \<times> string"

fun split_lines :: "string \<Rightarrow> string list" where
  "split_lines [] = []"
| "split_lines (c # cs) = (if c = CHR 0x0A then [c] # split_lines cs
     else (case split_lines cs of [] \<Rightarrow> [[c]] | l # ls \<Rightarrow> (c # l) # ls))"

fun lcs_length :: "string list \<Rightarrow> string list \<Rightarrow> nat" where
  "lcs_length [] ys = 0"
| "lcs_length xs [] = 0"
| "lcs_length (x # xs) (y # ys) = (if x = y then Suc (lcs_length xs ys)
     else max (lcs_length xs (y # ys)) (lcs_length (x # xs) ys))"

fun edit_script :: "string list \<Rightarrow> string list \<Rightarrow> part list" where
  "edit_script [] ys = map (Pair Inserted) ys"
| "edit_script xs [] = map (Pair Removed) xs"
| "edit_script (x # xs) (y # ys) = (if x = y then (Equal, x) # edit_script xs ys
     else if lcs_length (x # xs) ys \<le> lcs_length xs (y # ys)
       then (Removed, x) # edit_script xs (y # ys)
       else (Inserted, y) # edit_script (x # xs) ys)"

fun merge_parts :: "part list \<Rightarrow> part list" where
  "merge_parts [] = []"
| "merge_parts [p] = [p]"
| "merge_parts ((k, a) # (k', b) # ps) = (if k = k' then merge_parts ((k, a @ b) # ps)
     else (k, a) # merge_parts ((k', b) # ps))"

definition diffLines :: "string \<Rightarrow> string \<Rightarrow> part list" where
  "diffLines oldText newText = merge_parts (edit_script (split_lines oldText) (split_lines newText))"

text \<open>The two texts an edit script stands for.\<close>

definition new_text :: "part list \<Rightarrow> string" where
  "new_text ps = concat (map snd (filter (\<lambda>p. fst p = Equal \<or> fst p = Inserted) ps))"

definition old_text :: "part list \<Rightarrow> string" where
  "old_text ps = concat (map snd (filter (\<lambda>p. fst p = Equal \<or> fst p = Removed) ps))"

text \<open>\<^verbatim>\<open>for (const file of commitData.files)\<close>: an array gives its elements, a string
  its characters; no other value of the model is iterable.\<close>

fun iterate :: "json option \<Rightarrow> error + json list" where
  "iterate (Some (JArr vs)) = Inr vs"
| "iterate (Some (JStr s)) = Inr (map (\<lambda>c. JStr [c]) s)"
| "iterate _ = Inl TypeError"

text \<open>
  \<^verbatim>\<open>getParentFileContent\<close> (lines 189-195). \<open>Inr None\<close> is undefined, \<open>Inr (Some None)\<close>
  the null of \<^verbatim>\<open>getFileContent\<close> for an object that cannot be read. \<^verbatim>\<open>path.join\<close>
  throws on a hash that is not a string.
\<close>

definition getParentFileContent ::
  "repo \<Rightarrow> json \<Rightarrow> json option \<Rightarrow> error + string option option" where
  "getParentFileContent s parentCommitData filePath = (case get_prop parentCommitData ''files'' of
       Inl err \<Rightarrow> Inl err
     | Inr (Some (JArr fs)) \<Rightarrow> (case find_path filePath fs of
           Inl err \<Rightarrow> Inl err
         | Inr None \<Rightarrow> Inr None
         | Inr (Some i) \<Rightarrow>
             if truthy (Some (fs ! i)) then (case get_prop (fs ! i) ''hash'' of
                 Inl err \<Rightarrow> Inl err
               | Inr (Some (JStr h)) \<Rightarrow> Inr (Some (getFileContent s h))
               | Inr _ \<Rightarrow> Inl TypeError)
             else Inr None)
     | Inr _ \<Rightarrow> Inl TypeError)"

text \<open>
  What \<^verbatim>\<open>showCommitDiff\<close> (lines 139-187) prints for one file after its path and its
  content: the parts of the difference to the parent's version,
  \<^verbatim>\<open>New file in this commit\<close>, \<^verbatim>\<open>First commit\<close>, or \<^verbatim>\<open>Parent commit data not found\<close>.
\<close>

datatype file_report = Diff "part list" | NewFile | FirstCommit | ParentNotFound

definition show_file ::
  "repo \<Rightarrow> json \<Rightarrow> json \<Rightarrow> error + (json option \<times> string option \<times> file_report)" where
  "show_file s commitData file = (case get_prop file ''path'' of
       Inl err \<Rightarrow> Inl err
     | Inr filePath \<Rightarrow> (case get_prop file ''hash'' of
           Inl err \<Rightarrow> Inl err
         | Inr (Some (JStr h)) \<Rightarrow>
             let fileContent = getFileContent s h in
             (case get_prop commitData ''parent'' of
                 Inl err \<Rightarrow> Inl err
               | Inr parent \<Rightarrow>
                   if truthy parent then (case parent of
                       Some (JStr parentHash) \<Rightarrow> (case getCommitData s parentHash of
                           None \<Rightarrow> Inr (filePath, fileContent, ParentNotFound)
                         | Some parentCommitDataRaw \<Rightarrow>
                             if parentCommitDataRaw = [] then Inr (filePath, fileContent, ParentNotFound)
                             else (case JSON_parse parentCommitDataRaw of
                                 None \<Rightarrow> Inl SyntaxError
                               | Some parentCommitData \<Rightarrow>
                                   (case getParentFileContent s parentCommitData filePath of
                                       Inl err \<Rightarrow> Inl err
                                     | Inr None \<Rightarrow> Inr (filePath, fileContent, NewFile)
                                     | Inr (Some parentFileContent) \<Rightarrow>
                                         (case (parentFileContent, fileContent) of
                                             (Some oldText, Some newText) \<Rightarrow>
                                               Inr (filePath, fileContent, Diff (diffLines oldText newText))
                                           | _ \<Rightarrow> Inl TypeError))))
                     | _ \<Rightarrow> Inl TypeError)
                   else Inr (filePath, fileContent, FirstCommit))
         | Inr _ \<Rightarrow> Inl TypeError))"

fun show_files ::
  "repo \<Rightarrow> json \<Rightarrow> json list \<Rightarrow> error + (json option \<times> string option \<times> file_report) list" where
  "show_files s commitData [] = Inr []"
| "show_files s commitData (file # files) = (case show_file s commitData file of
       Inl err \<Rightarrow> Inl err
     | Inr r \<Rightarrow> (case show_files s commitData files of
           Inl err \<Rightarrow> Inl err
         | Inr rs \<Rightarrow> Inr (r # rs)))"

datatype show_outcome =
  CommitNotFound | Shown "(json option \<times> string option \<times> file_report) list" | ShowFailed error

definition showCommitDiff :: "repo \<Rightarrow> string \<Rightarrow> show_outcome" where
  "showCommitDiff s commitHash = (case getCommitData s commitHash of
       None \<Rightarrow> CommitNotFound
     | Some commitDataRaw \<Rightarrow>
         if commitDataRaw = [] then CommitNotFound
         else (case JSON_parse commitDataRaw of
             None \<Rightarrow> ShowFailed SyntaxError
           | Some commitData \<Rightarrow> (case get_prop commitData ''files'' of
                 Inl err \<Rightarrow> ShowFailed err
               | Inr files \<Rightarrow> (case iterate files of
                     Inl err \<Rightarrow> ShowFailed err
                   | Inr fs \<Rightarrow> (case show_files s commitData fs of
                         Inl err \<Rightarrow> ShowFailed err
                       | Inr rs \<Rightarrow> Shown rs)))))"

section \<open>Sequences of commands\<close>

text \<open>
  The command line (lines 229-279): every command constructs a \<^verbatim>\<open>Zit\<close>, whose
  constructor runs \<^verbatim>\<open>init\<close>, and then calls one operation; the commands of a session run
  one after the other. \<open>Edit\<close> is the user writing a working file between two commands.
  Next to the repository the run keeps the digests of the commits created, latest first.
\<close>

datatype command = AddCmd string | CommitCmd string string | Edit string string

fun step :: "(byte list \<Rightarrow> 160 word) \<Rightarrow> command \<Rightarrow> repo \<times> string list \<Rightarrow> repo \<times> string list" where
  "step sha1 (AddCmd file) (s, ids) = (snd (add sha1 file (init s)), ids)"
| "step sha1 (CommitCmd now message) (s, ids) = (case commit sha1 now message (init s) of
       (Committed h, s') \<Rightarrow> (s', h # ids)
     | (_, s') \<Rightarrow> (s', ids))"
| "step sha1 (Edit file text) (s, ids) = (s\<lparr>work := (work s)(file \<mapsto> text)\<rparr>, ids)"

fun run :: "(byte list \<Rightarrow> 160 word) \<Rightarrow> command list \<Rightarrow> repo \<times> string list \<Rightarrow> repo \<times> string list" where
  "run sha1 [] st = st"
| "run sha1 (c # cs) st = run sha1 cs (step sha1 c st)"

text \<open>The staging operations alone: the digests printed and the final repository.\<close>

fun adds :: "(byte list \<Rightarrow> 160 word) \<Rightarrow> string list \<Rightarrow> repo \<Rightarrow> string option list \<times> repo" where
  "adds sha1 [] s = ([], s)"
| "adds sha1 (f # fs) s = (case add sha1 f s of
       (d, s') \<Rightarrow> (case adds sha1 fs s' of (ds, s'') \<Rightarrow> (d # ds, s'')))"

section \<open>Notions used in the proofs\<close>

text \<open>A document whose objects have no repeated property name: the values of the model
  that stand for one value of the program.\<close>

fun wf_json :: "json \<Rightarrow> bool" where
  "wf_json (JArr vs) = (\<forall>v \<in> set vs. wf_json v)"
| "wf_json (JObj kvs) = (distinct (map fst kvs) \<and> (\<forall>kv \<in> set kvs. wf_json (snd kv)))"
| "wf_json _ = True"

text \<open>A number of nested calls that is enough to parse the text of a value.\<close>

fun fuel :: "json \<Rightarrow> nat" where
  "fuel (JArr vs) = Suc (sum_list (map (\<lambda>v. Suc (fuel v)) vs))"
| "fuel (JObj kvs) = Suc (sum_list (map (\<lambda>kv. Suc (fuel (snd kv))) kvs))"
| "fuel _ = 1"

text \<open>The first character of the text of a value is no white space and no closing
  bracket.\<close>

definition starts :: "string \<Rightarrow> bool" where
  "starts s = (case s of [] \<Rightarrow> False
     | c # t \<Rightarrow> c = CHR 0x22 \<or> c = CHR ''['' \<or> c = CHR ''{'' \<or> c = CHR ''n'' \<or> c = CHR ''t'' \<or> c = CHR ''f'')"

declare log_walk.simps [code]

section \<open>The staging index in the words of the spec\<close>

text \<open>The staging index as the program writes it: an array of objects with the
  properties \<^verbatim>\<open>path\<close> and \<^verbatim>\<open>hash\<close>.\<close>

definition entries :: "(string \<times> string) list \<Rightarrow> json" where
  "entries phs = JArr (map (\<lambda>(p, h). entry p h) phs)"

text \<open>Staging in the words of the spec (4.2): if an entry for the path exists, replace
  its digest; otherwise append a new entry.\<close>

fun stage_spec :: "string \<Rightarrow> string \<Rightarrow> (string \<times> string) list \<Rightarrow> (string \<times> string) list" where
  "stage_spec p h [] = [(p, h)]"
| "stage_spec p h ((p', h') # phs) =
     (if p' = p then (p, h) # phs else (p', h') # stage_spec p h phs)"

section \<open>A concrete session\<close>

text \<open>Two working files and the repository after \<^verbatim>\<open>init\<close> and after staging the first
  file, with \<open>radix_digest\<close> as the digest function.\<close>

definition demo_work :: "string \<rightharpoonup> string" where
  "demo_work = [''a.txt'' \<mapsto> ''hello'', ''b.txt'' \<mapsto> ''new'']"

definition demo_repo :: repo where
  "demo_repo = init (empty_repo demo_work)"

definition demo_staged :: repo where
  "demo_staged = snd (add radix_digest ''a.txt'' demo_repo)"

section \<open>JSON.parse reads back what JSON.stringify writes\<close>

lemma of_char_char_of: "n < 256 \<Longrightarrow> (of_char (char_of n) :: nat) = n"
  by simp

lemma of_char_hexdigit:
  "0 \<le> d \<Longrightarrow> d < 16 \<Longrightarrow> (of_char (hexdigit d) :: int) = (if d < 10 then 48 + d else 87 + d)"
  by (simp add: hexdigit_def)

lemma hexval_hexdigit: "0 \<le> d \<Longrightarrow> d < 16 \<Longrightarrow> hexval (hexdigit d) = Some d"
  by (simp add: hexval_def of_char_hexdigit Let_def)

lemma hex_digits_4: "hex_digits 4 n = [hexdigit (n div 16 div 16 div 16 mod 16), hexdigit (n div 16 div 16 mod 16), hexdigit (n div 16 mod 16), hexdigit (n mod 16)]"
proof -
  have "hex_digits (Suc (Suc (Suc (Suc 0)))) n = [hexdigit (n div 16 div 16 div 16 mod 16), hexdigit (n div 16 div 16 mod 16), hexdigit (n div 16 mod 16), hexdigit (n mod 16)]"
    by simp
  moreover have "(4::nat) = Suc (Suc (Suc (Suc 0)))" by simp
  ultimately show ?thesis by metis
qed

lemma of_char_int_bounds: "0 \<le> (of_char c :: int)" "(of_char c :: int) < 256"
proof -
  have e: "(of_char c :: int) = int (of_char c)" by (simp add: of_nat_of_char)
  show "0 \<le> (of_char c :: int)" unfolding e by simp
  show "(of_char c :: int) < 256" unfolding e by simp
qed

lemma small_code:
  assumes "0 \<le> (n::int)" "n < 32"
  shows "hex_digits 4 n = [hexdigit 0, hexdigit 0, hexdigit (n div 16), hexdigit (n mod 16)]"
    and "hex4 (hexdigit 0) (hexdigit 0) (hexdigit (n div 16)) (hexdigit (n mod 16)) = Some n"
proof -
  have d: "0 \<le> n div 16" "n div 16 < 16" "0 \<le> n mod 16" "n mod 16 < 16"
    using assms by simp_all
  have z: "n div 16 div 16 = 0" "n div 16 mod 16 = n div 16"
    using d by (simp_all add: div_pos_pos_trivial mod_pos_pos_trivial)
  show "hex_digits 4 n = [hexdigit 0, hexdigit 0, hexdigit (n div 16), hexdigit (n mod 16)]"
    by (simp add: hex_digits_4 z)
  show "hex4 (hexdigit 0) (hexdigit 0) (hexdigit (n div 16)) (hexdigit (n mod 16)) = Some n"
    using d by (simp add: hex4_def hexval_hexdigit)
qed

lemma parse_chars_quote_char:
  "parse_chars (quote_char c @ x) = (case parse_chars x of None \<Rightarrow> None | Some (s, r) \<Rightarrow> Some (c # s, r))"
proof -
  consider "c = CHR 0x22" | "c = CHR 0x5C" | "c = CHR 0x08" | "c = CHR 0x09" | "c = CHR 0x0A" | "c = CHR 0x0C" | "c = CHR 0x0D"
    | "c \<notin> {CHR 0x22, CHR 0x5C, CHR 0x08, CHR 0x09, CHR 0x0A, CHR 0x0C, CHR 0x0D}" "(of_char c :: int) < 32"
    | "c \<notin> {CHR 0x22, CHR 0x5C}" "\<not> (of_char c :: int) < 32" by blast
  then show ?thesis
  proof cases
    case 8
    let ?n = "of_char c :: int"
    have q: "quote_char c = [CHR 0x5C, CHR ''u'', hexdigit 0, hexdigit 0, hexdigit (?n div 16), hexdigit (?n mod 16)]"
      using 8 small_code(1) [OF of_char_int_bounds(1) 8(2)] by (simp add: quote_char_def)
    have v: "hex4 (hexdigit 0) (hexdigit 0) (hexdigit (?n div 16)) (hexdigit (?n mod 16)) = Some ?n"
      by (rule small_code(2) [OF of_char_int_bounds(1) 8(2)])
    show ?thesis unfolding q using v of_char_int_bounds(2) [of c] by (simp split: option.splits)
  qed (auto simp add: quote_char_def unescape_def split: option.splits)
qed

lemma parse_chars_quote:
  "parse_chars (concat (map quote_char s) @ CHR 0x22 # rest) = Some (s, rest)"
  by (induction s) (simp_all add: parse_chars_quote_char)


lemma skip_ws_spaces: "skip_ws (replicate k CHR '' '' @ x) = skip_ws x"
  by (induction k) (simp_all add: skip_ws_def json_ws_def)

lemma skip_ws_newline: "skip_ws (newline k @ x) = skip_ws x"
  using skip_ws_spaces [of k x] by (simp add: newline_def skip_ws_def json_ws_def)

lemma skip_ws_space: "skip_ws (CHR '' '' # x) = skip_ws x"
  by (simp add: skip_ws_def json_ws_def)

lemma skip_ws_cons: "\<not> json_ws c \<Longrightarrow> skip_ws (c # x) = c # x"
  by (simp add: skip_ws_def)

lemma skip_ws_newline_cons: "\<not> json_ws c \<Longrightarrow> skip_ws (newline k @ c # x) = c # x"
  by (simp add: skip_ws_newline skip_ws_cons)

lemma parse_value_skip: "skip_ws s = skip_ws t \<Longrightarrow> parse_value n s = parse_value n t"
  by (cases n) simp_all

lemma parse_members_skip: "skip_ws s = skip_ws t \<Longrightarrow> parse_members n acc s = parse_members n acc t"
  by (cases n) simp_all

lemma starts_stringify: "starts (stringify_indent ind v)"
  by (cases v) (simp_all add: starts_def quote_def)

lemma starts_append: "starts s \<Longrightarrow> starts (s @ x)"
  by (cases s) (simp_all add: starts_def)

lemma starts_skip: "starts s \<Longrightarrow> skip_ws s = s"
  by (cases s) (auto simp: starts_def skip_ws_def json_ws_def)

lemma starts_join: "xs \<noteq> [] \<Longrightarrow> starts (hd xs) \<Longrightarrow> starts (join sep xs @ x)"
  by (induction sep xs rule: join.induct) (simp_all add: starts_append)

lemma parse_elements_ok:
  assumes IH: "\<And>v n ind rest. v \<in> set vs \<Longrightarrow> fuel v \<le> n \<Longrightarrow>
     parse_value n (stringify_indent ind v @ rest) = Some (v, rest)"
  shows "vs \<noteq> [] \<Longrightarrow> sum_list (map (\<lambda>v. Suc (fuel v)) vs) \<le> n \<Longrightarrow>
     parse_elements n acc (join ('','' @ newline i) (map (stringify_indent i) vs) @ newline j @ '']'' @ rest)
       = Some (JArr (acc @ vs), rest)"
  using IH
proof (induction vs arbitrary: n acc)
  case Nil
  then show ?case by simp
next
  case (Cons v vs)
  from Cons.prems(2) obtain m where n: "n = Suc m" and m1: "fuel v \<le> m"
    and m2: "sum_list (map (\<lambda>v. Suc (fuel v)) vs) \<le> m"
    by (cases n) auto
  show ?case
  proof (cases vs)
    case Nil
    have "parse_value m (stringify_indent i v @ newline j @ '']'' @ rest) = Some (v, newline j @ '']'' @ rest)"
      using Cons.prems(3) m1 by simp
    then show ?thesis using Nil n
      by (simp add: skip_ws_newline_cons json_ws_def)
  next
    case (Cons w ws)
    let ?tail = "join ('','' @ newline i) (map (stringify_indent i) vs) @ newline j @ '']'' @ rest"
    have a: "parse_value m (stringify_indent i v @ '','' @ newline i @ ?tail) = Some (v, '','' @ newline i @ ?tail)"
      using Cons.prems(3) m1 by simp
    have b: "parse_elements m (acc @ [v]) ?tail = Some (JArr ((acc @ [v]) @ vs), rest)"
      using Cons.IH [of m "acc @ [v]"] Cons.prems(3) m2 Cons by simp
    have c: "parse_elements m (acc @ [v]) (newline i @ ?tail) = parse_elements m (acc @ [v]) ?tail"
      by (cases m) (simp_all add: parse_value_skip [OF skip_ws_newline])
    show ?thesis using a b c Cons n
      by (simp add: skip_ws_cons json_ws_def)
  qed
qed




lemma parse_elements_skip:
  assumes "skip_ws s = skip_ws t"
  shows "parse_elements n acc s = parse_elements n acc t"
proof (cases n)
  case (Suc m)
  then show ?thesis using parse_value_skip [OF assms, of m] by simp
qed simp

lemma obj_set_fresh: "k \<notin> fst ` set kvs \<Longrightarrow> obj_set kvs k v = kvs @ [(k, v)]"
  by (induction kvs) auto

lemma skip_ws_quote: "skip_ws (quote k @ x) = quote k @ x"
  by (simp add: quote_def skip_ws_cons json_ws_def)

lemma parse_member_head:
  assumes "parse_value m (stringify_indent i v @ x) = Some (v, x)"
  shows "parse_members (Suc m) acc (quote k @ CHR '':'' # CHR '' '' # stringify_indent i v @ x) =
     (case skip_ws x of [] \<Rightarrow> None
      | e # r4 \<Rightarrow> if e = CHR '','' then parse_members m (obj_set acc k v) r4
                 else if e = CHR ''}'' then Some (JObj (obj_set acc k v), r4) else None)"
proof -
  have a: "parse_chars (concat (map quote_char k) @ CHR 0x22 # '': '' @ stringify_indent i v @ x)
      = Some (k, '': '' @ stringify_indent i v @ x)"
    by (rule parse_chars_quote)
  have b: "parse_value m (CHR '' '' # stringify_indent i v @ x) = Some (v, x)"
    using assms parse_value_skip [OF skip_ws_space] by simp
  show ?thesis using a b
    by (simp add: quote_def skip_ws_cons json_ws_def)
qed

lemma parse_members_ok:
  assumes IH: "\<And>k v n ind rest. (k, v) \<in> set kvs \<Longrightarrow> fuel v \<le> n \<Longrightarrow>
     parse_value n (stringify_indent ind v @ rest) = Some (v, rest)"
  shows "kvs \<noteq> [] \<Longrightarrow> distinct (map fst (acc @ kvs)) \<Longrightarrow>
     sum_list (map (\<lambda>kv. Suc (fuel (snd kv))) kvs) \<le> n \<Longrightarrow>
     parse_members n acc (join ('','' @ newline i)
         (map (\<lambda>(k, v). quote k @ '': '' @ stringify_indent i v) kvs) @ newline j @ ''}'' @ rest)
       = Some (JObj (acc @ kvs), rest)"
  using IH
proof (induction kvs arbitrary: n acc)
  case Nil
  then show ?case by simp
next
  case (Cons kv kvs)
  obtain k v where kv: "kv = (k, v)" by (cases kv)
  from Cons.prems(3) kv obtain m where n: "n = Suc m" and m1: "fuel v \<le> m"
    and m2: "sum_list (map (\<lambda>kv. Suc (fuel (snd kv))) kvs) \<le> m"
    by (cases n) auto
  have fresh: "obj_set acc k v = acc @ [(k, v)]"
    using Cons.prems(2) kv by (intro obj_set_fresh) auto
  have pv: "\<And>x. parse_value m (stringify_indent i v @ x) = Some (v, x)"
    using Cons.prems(4) [of k v m] kv m1 by simp
  show ?case
  proof (cases kvs)
    case Nil
    show ?thesis using Nil n kv fresh
      by (simp add: parse_member_head [OF pv] skip_ws_newline_cons json_ws_def del: parse_members.simps)
  next
    case (Cons w ws)
    let ?tail = "join ('','' @ newline i)
         (map (\<lambda>(k, v). quote k @ '': '' @ stringify_indent i v) kvs) @ newline j @ ''}'' @ rest"
    have ne: "kvs \<noteq> []" using Cons by simp
    have dist: "distinct (map fst ((acc @ [(k, v)]) @ kvs))" using Cons.prems(2) kv by simp
    have ih: "\<And>k v n ind rest. (k, v) \<in> set kvs \<Longrightarrow> fuel v \<le> n \<Longrightarrow>
        parse_value n (stringify_indent ind v @ rest) = Some (v, rest)"
      using Cons.prems(4) by (meson list.set_intros(2))
    have b: "parse_members m (acc @ [(k, v)]) ?tail = Some (JObj ((acc @ [(k, v)]) @ kvs), rest)"
      by (rule Cons.IH [OF ne dist m2 ih])
    have c: "parse_members m (acc @ [(k, v)]) (newline i @ ?tail) = parse_members m (acc @ [(k, v)]) ?tail"
      by (rule parse_members_skip [OF skip_ws_newline])
    obtain k' v' where w: "w = (k', v')" by (cases w)
    show ?thesis using b c Cons n kv fresh w
      by (simp add: parse_member_head [OF pv] skip_ws_cons json_ws_def del: parse_members.simps)
  qed
qed

lemma starts_first: "starts s \<Longrightarrow> \<exists>d r. skip_ws (newline k @ s) = d # r \<and> d \<noteq> CHR '']'' \<and> d \<noteq> CHR ''}''"
  by (cases s) (auto simp: starts_def skip_ws_newline_cons json_ws_def)

lemma parse_value_ok:
  "wf_json v \<Longrightarrow> fuel v \<le> n \<Longrightarrow> parse_value n (stringify_indent ind v @ rest) = Some (v, rest)"
proof (induction v arbitrary: n ind rest)
  case JNull
  then show ?case by (cases n) (simp_all add: skip_ws_cons json_ws_def)
next
  case (JBool b)
  then show ?case by (cases n) (simp_all add: skip_ws_cons json_ws_def)
next
  case (JStr s)
  then show ?case by (cases n) (simp_all add: quote_def skip_ws_cons json_ws_def parse_chars_quote)
next
  case (JArr vs)
  from JArr.prems(2) obtain m where n: "n = Suc m"
    and m: "sum_list (map (\<lambda>v. Suc (fuel v)) vs) \<le> m" by (cases n) auto
  show ?case
  proof (cases "vs = []")
    case True
    then show ?thesis using n by (simp add: skip_ws_cons json_ws_def)
  next
    case False
    let ?body = "join ('','' @ newline (ind + 2)) (map (stringify_indent (ind + 2)) vs) @ newline ind @ '']'' @ rest"
    have st: "starts ?body"
      using False by (intro starts_join) (simp_all add: hd_map starts_stringify)
    then obtain d r where d: "skip_ws (newline (ind + 2) @ ?body) = d # r" "d \<noteq> CHR '']''"
      using starts_first by blast
    have el: "parse_elements m [] ?body = Some (JArr ([] @ vs), rest)"
      using JArr.IH JArr.prems(1) False m by (intro parse_elements_ok) auto
    have el': "parse_elements m [] (newline (ind + 2) @ ?body) = parse_elements m [] ?body"
      by (rule parse_elements_skip [OF skip_ws_newline])
    show ?thesis using False n d el el'
      by (simp add: skip_ws_cons json_ws_def)
  qed
next
  case (JObj kvs)
  from JObj.prems(2) obtain m where n: "n = Suc m"
    and m: "sum_list (map (\<lambda>kv. Suc (fuel (snd kv))) kvs) \<le> m" by (cases n) auto
  show ?case
  proof (cases "kvs = []")
    case True
    then show ?thesis using n by (simp add: skip_ws_cons json_ws_def)
  next
    case False
    let ?body = "join ('','' @ newline (ind + 2))
        (map (\<lambda>(k, v). quote k @ '': '' @ stringify_indent (ind + 2) v) kvs) @ newline ind @ ''}'' @ rest"
    have "starts (hd (map (\<lambda>(k, v). quote k @ '': '' @ stringify_indent (ind + 2) v) kvs))"
      using False by (cases kvs) (auto simp: starts_def quote_def)
    then have st: "starts ?body"
      using False by (intro starts_join) simp_all
    then obtain d r where d: "skip_ws (newline (ind + 2) @ ?body) = d # r" "d \<noteq> CHR ''}''"
      using starts_first by blast
    have IH: "\<And>k v n ind rest. (k, v) \<in> set kvs \<Longrightarrow> fuel v \<le> n \<Longrightarrow>
        parse_value n (stringify_indent ind v @ rest) = Some (v, rest)"
    proof -
      fix k v n ind rest assume kv: "(k, v) \<in> set kvs" and f: "fuel v \<le> n"
      have "wf_json v" using JObj.prems(1) kv by auto
      moreover have "v \<in> Basic_BNFs.snds (k, v)" by simp
      ultimately show "parse_value n (stringify_indent ind v @ rest) = Some (v, rest)"
        using JObj.IH kv f by blast
    qed
    have el: "parse_members m [] ?body = Some (JObj ([] @ kvs), rest)"
      using JObj.prems(1) False m by (intro parse_members_ok IH) auto
    have el': "parse_members m [] (newline (ind + 2) @ ?body) = parse_members m [] ?body"
      by (rule parse_members_skip [OF skip_ws_newline])
    show ?thesis using False n d el el'
      by (simp add: skip_ws_cons json_ws_def)
  qed
qed

lemma join_bound:
  "sep \<noteq> [] \<Longrightarrow> (\<And>x. x \<in> set xs \<Longrightarrow> g x \<le> length (f x)) \<Longrightarrow>
     sum_list (map (\<lambda>x. Suc (g x)) xs) \<le> Suc (length (join sep (map f xs)))"
proof (induction xs)
  case Nil
  then show ?case by simp
next
  case (Cons a xs)
  have a: "g a \<le> length (f a)" using Cons.prems(2) by simp
  have "sum_list (map (\<lambda>x. Suc (g x)) xs) \<le> Suc (length (join sep (map f xs)))"
    using Cons by simp
  moreover have "1 \<le> length sep" using Cons.prems(1) by (cases sep) simp_all
  ultimately show ?case using a by (cases xs) simp_all
qed

lemma fuel_le_length: "fuel v \<le> length (stringify_indent ind v)"
proof (induction v arbitrary: ind)
  case (JArr vs)
  have "sum_list (map (\<lambda>v. Suc (fuel v)) vs)
      \<le> Suc (length (join ('','' @ newline (ind + 2)) (map (stringify_indent (ind + 2)) vs)))"
    using JArr.IH by (intro join_bound) simp_all
  then show ?case by simp
next
  case (JObj kvs)
  have "sum_list (map (\<lambda>kv. Suc (fuel (snd kv))) kvs)
      \<le> Suc (length (join ('','' @ newline (ind + 2))
            (map (\<lambda>kv. quote (fst kv) @ '': '' @ stringify_indent (ind + 2) (snd kv)) kvs)))"
  proof (intro join_bound)
    fix x assume x: "x \<in> set kvs"
    have "snd x \<in> Basic_BNFs.snds x" by (cases x) simp
    then have "fuel (snd x) \<le> length (stringify_indent (ind + 2) (snd x))"
      using JObj.IH x by blast
    then show "fuel (snd x) \<le> length (quote (fst x) @ '': '' @ stringify_indent (ind + 2) (snd x))"
      by simp
  qed simp
  then show ?case by (simp add: case_prod_unfold)
qed (simp_all add: quote_def)

lemma JSON_parse_stringify2: "wf_json v \<Longrightarrow> JSON_parse (JSON_stringify2 v) = Some v"
  using parse_value_ok [of v "Suc (length (stringify_indent 0 v))" 0 "[]"] fuel_le_length [of v 0]
  by (simp add: JSON_parse_def JSON_stringify2_def skip_ws_def)

lemma map_fst_obj_set:
  "map fst (obj_set kvs k v) = (if k \<in> set (map fst kvs) then map fst kvs else map fst kvs @ [k])"
  by (induction kvs) (auto simp: rev_image_eqI)

lemma obj_set_distinct: "distinct (map fst kvs) \<Longrightarrow> distinct (map fst (obj_set kvs k v))"
  by (simp add: map_fst_obj_set)

lemma obj_set_values: "kv \<in> set (obj_set kvs k v) \<Longrightarrow> kv = (k, v) \<or> kv \<in> set kvs"
  by (induction kvs) (auto split: if_splits)

lemma wf_obj_set: "wf_json (JObj kvs) \<Longrightarrow> wf_json v \<Longrightarrow> wf_json (JObj (obj_set kvs k v))"
proof -
  assume a: "wf_json (JObj kvs)" and b: "wf_json v"
  have "\<forall>kv \<in> set (obj_set kvs k v). wf_json (snd kv)"
  proof
    fix kv assume "kv \<in> set (obj_set kvs k v)"
    then have "kv = (k, v) \<or> kv \<in> set kvs" by (rule obj_set_values)
    then show "wf_json (snd kv)" using a b by auto
  qed
  then show ?thesis using a by (simp add: obj_set_distinct)
qed

lemma parse_wf:
  "(parse_value n s = Some (v, r) \<longrightarrow> wf_json v)"
  "(parse_elements n acc s = Some (v, r) \<longrightarrow> (\<forall>a \<in> set acc. wf_json a) \<longrightarrow> wf_json v)"
  "(parse_members n kvs s = Some (v, r) \<longrightarrow> wf_json (JObj kvs) \<longrightarrow> wf_json v)"
proof (induction n s and n acc s and n kvs s arbitrary: v r and v r and v r
    rule: parse_value_parse_elements_parse_members.induct)
  case (1 s)
  then show ?case by simp
next
  case (2 n s)
  show ?case
  proof
    assume a: "parse_value (Suc n) s = Some (v, r)"
    show "wf_json v"
    proof (cases "skip_ws s")
      case Nil
      then show ?thesis using a by simp
    next
      case (Cons c t)
      then show ?thesis using a 2 [of c t]
        by (auto split: if_splits option.splits list.splits)
    qed
  qed
next
  case (3 acc s)
  then show ?case by simp
next
  case (4 n acc s)
  show ?case
  proof (intro impI)
    assume a: "parse_elements (Suc n) acc s = Some (v, r)" and w: "\<forall>a \<in> set acc. wf_json a"
    then obtain v1 r1 where p: "parse_value n s = Some (v1, r1)"
      by (auto split: option.splits)
    then have w1: "wf_json v1" using 4(1) by blast
    show "wf_json v"
    proof (cases "skip_ws r1")
      case Nil
      then show ?thesis using a p by simp
    next
      case (Cons c t)
      then show ?thesis using a p w w1 4(2) [of "(v1, r1)" v1 r1 c t v r]
        by (auto split: if_splits)
    qed
  qed
next
  case (5 kvs s)
  then show ?case by simp
next
  case (6 n kvs s)
  show ?case
  proof (intro impI)
    assume a: "parse_members (Suc n) kvs s = Some (v, r)" and w: "wf_json (JObj kvs)"
    from a obtain c t where s: "skip_ws s = c # t" by (auto split: list.splits)
    from a s have c: "c = CHR 0x22" by (auto split: if_splits)
    from a s c obtain k r1 where k: "parse_chars t = Some (k, r1)" by (auto split: option.splits)
    from a s c k obtain d r2 where d: "skip_ws r1 = d # r2" by (auto split: list.splits)
    from a s c k d have d': "d = CHR '':''" by (auto split: if_splits)
    from a s c k d d' obtain v1 r3 where v1: "parse_value n r2 = Some (v1, r3)" by (auto split: option.splits)
    from a s c k d d' v1 obtain e r4 where e: "skip_ws r3 = e # r4" by (auto split: list.splits)
    have w1: "wf_json v1" using 6(1) [OF s _ k refl d _ ] c d' v1 by auto
    have w2: "wf_json (JObj (obj_set kvs k v1))" using w w1 by (rule wf_obj_set)
    show "wf_json v"
    proof (cases "e = CHR '',''")
      case True
      have "parse_members n (obj_set kvs k v1) r4 = Some (v, r)"
        using a s c k d d' v1 e True by simp
      then show ?thesis using 6(2) [OF s _ k refl d _ v1 refl e True] c d' w2 by auto
    next
      case False
      then show ?thesis using a s c k d d' v1 e w2 by (auto split: if_splits)
    qed
  qed
qed

lemma JSON_parse_wf: "JSON_parse s = Some v \<Longrightarrow> wf_json v"
  using parse_wf(1) [of "Suc (length s)" s v]
  by (auto simp: JSON_parse_def simp del: parse_value.simps split: option.splits if_splits)

section \<open>Digests, trimming and the commit operation\<close>

lemma length_hex_digits: "length (hex_digits k v) = k"
  by (induction k v rule: hex_digits.induct) simp_all

lemma js_space_code: "js_space c \<Longrightarrow> (of_char c :: int) \<in> {9, 10, 11, 12, 13, 32, 160}"
  by (auto simp: js_space_def)

lemma hexdigit_not_space': "0 \<le> d \<Longrightarrow> d < 16 \<Longrightarrow> \<not> js_space (hexdigit d)"
proof
  assume d: "0 \<le> d" "d < 16" and "js_space (hexdigit d)"
  then have "(of_char (hexdigit d) :: int) \<in> {9, 10, 11, 12, 13, 32, 160}"
    by (intro js_space_code)
  then show False using d
    by (auto simp: of_char_hexdigit split: if_splits)
qed

lemma hexdigit_not_space: "\<not> js_space (hexdigit (v mod 16))"
  by (rule hexdigit_not_space') simp_all

lemma hex_digits_no_space: "c \<in> set (hex_digits k v) \<Longrightarrow> \<not> js_space c"
  by (induction k v rule: hex_digits.induct) (auto simp: hexdigit_not_space)

lemma dropWhile_none: "\<forall>c \<in> set s. \<not> P c \<Longrightarrow> dropWhile P s = s"
  by (cases s) simp_all

lemma trim_no_space:
  assumes "\<forall>c \<in> set s. \<not> js_space c"
  shows "trim s = s"
proof -
  have "dropWhile js_space s = s" using assms by (rule dropWhile_none)
  moreover have "dropWhile js_space (rev s) = rev s" using assms by (intro dropWhile_none) simp
  ultimately show ?thesis by (simp add: trim_def)
qed

lemma all_dropWhile: "(\<forall>x \<in> set (dropWhile P h). P x) \<longleftrightarrow> (\<forall>x \<in> set h. P x)"
  by (induction h) auto

lemma hashObject_length: "length (hashObject sha1 x) = 40"
  by (simp add: hashObject_def digest_hex_def length_hex_digits)

lemma hashObject_nonempty: "hashObject sha1 x \<noteq> []"
  using hashObject_length [of sha1 x] by auto

lemma trim_hashObject: "trim (hashObject sha1 x) = hashObject sha1 x"
  by (rule trim_no_space) (auto simp: hashObject_def digest_hex_def dest: hex_digits_no_space)

lemma trim_empty_iff: "trim h = [] \<longleftrightarrow> (\<forall>c \<in> set h. js_space c)"
  by (simp add: trim_def dropWhile_eq_Nil_conv all_dropWhile)

lemma trim_decomp:
  "\<exists>a b. h = a @ trim h @ b \<and> (\<forall>c \<in> set a. js_space c) \<and> (\<forall>c \<in> set b. js_space c)"
proof -
  let ?m = "dropWhile js_space h"
  have 1: "h = takeWhile js_space h @ ?m" by simp
  have 2: "rev ?m = takeWhile js_space (rev ?m) @ dropWhile js_space (rev ?m)" by simp
  then have 3: "?m = trim h @ rev (takeWhile js_space (rev ?m))"
    by (metis rev_append rev_rev_ident trim_def)
  have "h = takeWhile js_space h @ trim h @ rev (takeWhile js_space (rev ?m))"
    using 1 3 by metis
  moreover have "\<forall>c \<in> set (takeWhile js_space h). js_space c"
    by (auto dest: set_takeWhileD)
  moreover have "\<forall>c \<in> set (rev (takeWhile js_space (rev ?m))). js_space c"
    by (auto dest: set_takeWhileD)
  ultimately show ?thesis by blast
qed

lemma trim_ends:
  assumes "trim h \<noteq> []"
  shows "\<not> js_space (hd (trim h)) \<and> \<not> js_space (last (trim h))"
proof -
  let ?m = "dropWhile js_space h"
  let ?r = "dropWhile js_space (rev ?m)"
  have r: "?r \<noteq> []" using assms by (simp add: trim_def)
  then have a: "\<not> js_space (hd ?r)" by (rule hd_dropWhile)
  have l: "last (trim h) = hd ?r" using r by (simp add: trim_def last_rev)
  have m: "?m \<noteq> []"
  proof
    assume e: "?m = []"
    have "?r = []" unfolding e by simp
    with r show False by blast
  qed
  then have b: "\<not> js_space (hd ?m)" by (rule hd_dropWhile)
  have "trim h = rev ?r" by (simp add: trim_def)
  have "?m = rev ?r @ rev (takeWhile js_space (rev ?m))"
    by (metis rev_append rev_rev_ident takeWhile_dropWhile_id)
  then have "hd ?m = hd (rev ?r)" using r by (metis hd_append2 rev_is_Nil_conv)
  then have "hd (trim h) = hd ?m" by (simp add: trim_def)
  then show ?thesis using a b l by simp
qed

lemma commit_success:
  assumes "index s = Some raw" "JSON_parse raw = Some idx" "length_is_0 idx = Inr False"
  shows "commit sha1 now message s =
    (Committed (hashObject sha1 (JSON_stringify (commit_record now message idx (getCurrentHead s)))),
     s\<lparr>objects := (objects s)(hashObject sha1 (JSON_stringify (commit_record now message idx (getCurrentHead s)))
          \<mapsto> JSON_stringify2 (commit_record now message idx (getCurrentHead s))),
       written := written s @ [hashObject sha1 (JSON_stringify (commit_record now message idx (getCurrentHead s)))],
       head := Some (hashObject sha1 (JSON_stringify (commit_record now message idx (getCurrentHead s)))),
       index := Some (JSON_stringify2 (JArr []))\<rparr>)"
  using assms by (simp add: commit_def Let_def)

lemma commit_cases:
  "commit sha1 now message s = (out, s') \<Longrightarrow>
     (\<exists>raw idx. index s = Some raw \<and> JSON_parse raw = Some idx \<and> length_is_0 idx = Inr False)
     \<or> (s' = s \<and> (out = NothingToCommit \<or> (\<exists>e. out = CommitFailed e)))"
  by (auto simp: commit_def Let_def split: option.splits sum.splits bool.splits)

lemma wf_commit_record: "wf_json files \<Longrightarrow> wf_json (commit_record ts msg files parent)"
  by (simp add: commit_record_def split: option.splits)

section \<open>Staging, storing and reading HEAD\<close>

lemma updateStagingArea_frame:
  "objects (updateStagingArea p h s) = objects s"
  "head (updateStagingArea p h s) = head s"
  "work (updateStagingArea p h s) = work s"
  "written (updateStagingArea p h s) = written s"
  by (simp_all add: updateStagingArea_def split: option.splits json.splits sum.splits)

lemma add_unreadable: "work s f = None \<Longrightarrow> add sha1 f s = (None, s)"
  by (simp add: add_def Let_def)

lemma add_present:
  "work s f = Some T \<Longrightarrow> objects s (hashObject sha1 T) = Some x \<Longrightarrow>
   add sha1 f s = (Some (hashObject sha1 T), updateStagingArea f (hashObject sha1 T) s)"
  by (simp add: add_def Let_def)

lemma add_absent:
  "work s f = Some T \<Longrightarrow> objects s (hashObject sha1 T) = None \<Longrightarrow>
   add sha1 f s = (Some (hashObject sha1 T), updateStagingArea f (hashObject sha1 T)
     (s\<lparr>objects := (objects s)(hashObject sha1 T \<mapsto> T), written := written s @ [hashObject sha1 T]\<rparr>))"
  by (simp add: add_def Let_def)

lemma add_frame:
  "head (snd (add sha1 f s)) = head s" "work (snd (add sha1 f s)) = work s"
  by (simp_all add: add_def Let_def updateStagingArea_frame split: option.splits)

lemma add_writes:
  "(objects (snd (add sha1 f s)) = objects s \<and> written (snd (add sha1 f s)) = written s)
   \<or> (\<exists>d T. objects s d = None \<and> objects (snd (add sha1 f s)) = (objects s)(d \<mapsto> T)
         \<and> written (snd (add sha1 f s)) = written s @ [d])"
  by (auto simp: add_def Let_def updateStagingArea_frame split: option.splits)

lemma adds_Cons:
  "fst (adds sha1 (f # fs) s) = fst (add sha1 f s) # fst (adds sha1 fs (snd (add sha1 f s)))"
  "snd (adds sha1 (f # fs) s) = snd (adds sha1 fs (snd (add sha1 f s)))"
  by (simp_all split: prod.splits)

lemma adds_frame:
  "head (snd (adds sha1 fs s)) = head s \<and> work (snd (adds sha1 fs s)) = work s"
proof (induction fs arbitrary: s)
  case Nil
  show ?case by simp
next
  case (Cons f fs)
  show ?case using Cons [of "snd (add sha1 f s)"] by (simp add: adds_Cons add_frame del: adds.simps)
qed

lemma adds_writes:
  "\<exists>new. written (snd (adds sha1 fs s)) = written s @ new \<and> distinct new
     \<and> set new \<inter> dom (objects s) = {}
     \<and> dom (objects (snd (adds sha1 fs s))) = dom (objects s) \<union> set new"
proof (induction fs arbitrary: s)
  case Nil
  then show ?case by simp
next
  case (Cons f fs)
  let ?s1 = "snd (add sha1 f s)"
  from Cons [of ?s1] obtain new where new: "written (snd (adds sha1 fs ?s1)) = written ?s1 @ new"
    "distinct new" "set new \<inter> dom (objects ?s1) = {}"
    "dom (objects (snd (adds sha1 fs ?s1))) = dom (objects ?s1) \<union> set new" by blast
  have e: "snd (adds sha1 (f # fs) s) = snd (adds sha1 fs ?s1)"
    by (rule adds_Cons)
  from add_writes [of sha1 f s] show ?case
  proof
    assume "objects ?s1 = objects s \<and> written ?s1 = written s"
    then show ?thesis using new e by auto
  next
    assume "\<exists>d T. objects s d = None \<and> objects ?s1 = (objects s)(d \<mapsto> T) \<and> written ?s1 = written s @ [d]"
    then obtain d T where d: "objects s d = None" "objects ?s1 = (objects s)(d \<mapsto> T)"
      "written ?s1 = written s @ [d]" by blast
    have "written (snd (adds sha1 (f # fs) s)) = written s @ (d # new)" using new d e by simp
    moreover have "distinct (d # new)" using new d by auto
    moreover have "set (d # new) \<inter> dom (objects s) = {}" using new d by auto
    moreover have "dom (objects (snd (adds sha1 (f # fs) s))) = dom (objects s) \<union> set (d # new)"
      using new d e by auto
    ultimately show ?thesis by blast
  qed
qed

lemma adds_stored:
  assumes "\<forall>f \<in> set fs. work s f = Some T" "hashObject sha1 T \<in> dom (objects s)"
  shows "fst (adds sha1 fs s) = replicate (length fs) (Some (hashObject sha1 T))
    \<and> objects (snd (adds sha1 fs s)) = objects s \<and> written (snd (adds sha1 fs s)) = written s"
  using assms
proof (induction fs arbitrary: s)
  case Nil
  then show ?case by simp
next
  case (Cons f fs)
  from Cons.prems obtain x where x: "work s f = Some T" "objects s (hashObject sha1 T) = Some x"
    by auto
  let ?s1 = "updateStagingArea f (hashObject sha1 T) s"
  have a: "add sha1 f s = (Some (hashObject sha1 T), ?s1)" using x by (rule add_present)
  have "\<forall>f \<in> set fs. work ?s1 f = Some T" "hashObject sha1 T \<in> dom (objects ?s1)"
    using Cons.prems by (simp_all add: updateStagingArea_frame)
  from Cons.IH [OF this] show ?case using a
    by (simp add: adds_Cons updateStagingArea_frame del: adds.simps)
qed

lemma wf_entries: "wf_json (entries phs)"
  by (auto simp: entries_def entry_def)

lemma find_path_entries:
  "\<exists>r. find_path (Some (JStr p)) (map (\<lambda>(p, h). entry p h) phs) = Inr r
     \<and> (case r of
           None \<Rightarrow> p \<notin> fst ` set phs \<and> stage_spec p h phs = phs @ [(p, h)]
         | Some i \<Rightarrow> i < length phs \<and> fst (phs ! i) = p \<and> stage_spec p h phs = phs[i := (p, h)])"
proof (induction phs)
  case Nil
  then show ?case by simp
next
  case (Cons a phs)
  obtain p' h' where a: "a = (p', h')" by (cases a)
  from Cons obtain r where r: "find_path (Some (JStr p)) (map (\<lambda>(p, h). entry p h) phs) = Inr r"
    "case r of None \<Rightarrow> p \<notin> fst ` set phs \<and> stage_spec p h phs = phs @ [(p, h)]
       | Some i \<Rightarrow> i < length phs \<and> fst (phs ! i) = p \<and> stage_spec p h phs = phs[i := (p, h)]"
    by blast
  show ?case
  proof (cases "p' = p")
    case True
    then show ?thesis using a by (simp add: entry_def)
  next
    case False
    then show ?thesis using a r by (cases r) (simp_all add: entry_def)
  qed
qed

lemma set_hash_entry: "set_hash (entry p x) h = entry p h"
  by (simp add: entry_def)

lemma updateStagingArea_entries:
  assumes "index s = Some (JSON_stringify2 (entries phs))"
  shows "index (updateStagingArea p h s) = Some (JSON_stringify2 (entries (stage_spec p h phs)))"
proof -
  define es where "es = map (\<lambda>(p, h). entry p h) phs"
  have parse: "JSON_parse (JSON_stringify2 (entries phs)) = Some (JArr es)"
    using JSON_parse_stringify2 [OF wf_entries] by (simp add: entries_def es_def)
  from find_path_entries [of p phs h] obtain r where r: "find_path (Some (JStr p)) es = Inr r"
    "case r of None \<Rightarrow> p \<notin> fst ` set phs \<and> stage_spec p h phs = phs @ [(p, h)]
       | Some i \<Rightarrow> i < length phs \<and> fst (phs ! i) = p \<and> stage_spec p h phs = phs[i := (p, h)]"
    unfolding es_def by blast
  show ?thesis
  proof (cases r)
    case None
    have "es @ [entry p h] = map (\<lambda>(p, h). entry p h) (stage_spec p h phs)"
      using r(2) None by (simp add: es_def)
    then show ?thesis using None r(1) assms parse
      by (simp add: updateStagingArea_def entries_def)
  next
    case (Some i)
    then have i: "i < length phs" "fst (phs ! i) = p" "stage_spec p h phs = phs[i := (p, h)]"
      using r(2) by simp_all
    have e: "es ! i = entry p (snd (phs ! i))"
      using i(1,2) by (simp add: es_def case_prod_unfold)
    have t: "truthy (Some (es ! i))" using e by (simp add: entry_def)
    have "es[i := set_hash (es ! i) h] = map (\<lambda>(p, h). entry p h) (stage_spec p h phs)"
      unfolding e set_hash_entry i(3) by (simp add: es_def map_update)
    then show ?thesis using Some r(1) t assms parse
      by (simp add: updateStagingArea_def entries_def)
  qed
qed

lemma map_fst_stage_spec:
  "map fst (stage_spec p h phs) = (if p \<in> fst ` set phs then map fst phs else map fst phs @ [p])"
  by (induction phs) (auto simp: rev_image_eqI)

lemma stage_spec_append: "p \<notin> fst ` set phs \<Longrightarrow> stage_spec p h phs = phs @ [(p, h)]"
  by (induction phs) auto

lemma map_of_stage_spec:
  "map_of (stage_spec p h phs) q = (if q = p then Some h else map_of phs q)"
  by (induction phs) auto

lemma stagings_entries:
  assumes "index s = Some (JSON_stringify2 (entries phs))" "distinct (map fst phs)"
  shows "\<exists>phs'. index (fold (\<lambda>(p, h). updateStagingArea p h) ops s) = Some (JSON_stringify2 (entries phs'))
     \<and> distinct (map fst phs')"
  using assms
proof (induction ops arbitrary: s phs)
  case Nil
  then show ?case by auto
next
  case (Cons a ops)
  obtain p h where a: "a = (p, h)" by (cases a)
  have 1: "index (updateStagingArea p h s) = Some (JSON_stringify2 (entries (stage_spec p h phs)))"
    using Cons.prems(1) by (rule updateStagingArea_entries)
  have 2: "distinct (map fst (stage_spec p h phs))"
    using Cons.prems(2) by (simp add: map_fst_stage_spec)
  from Cons.IH [OF 1 2] show ?case using a by simp
qed

lemma concat_split_lines: "concat (split_lines s) = s"
  by (induction s) (auto split: list.splits)

lemma edit_script_texts:
  "new_text (edit_script xs ys) = concat ys \<and> old_text (edit_script xs ys) = concat xs"
proof (induction xs ys rule: edit_script.induct)
  case (1 ys)
  have "filter (\<lambda>p. fst p = Equal \<or> fst p = Inserted) (map (Pair Inserted) ys) = map (Pair Inserted) ys"
    "filter (\<lambda>p. fst p = Equal \<or> fst p = Removed) (map (Pair Inserted) ys) = []"
    by (induction ys) simp_all
  then show ?case by (simp add: new_text_def old_text_def comp_def)
next
  case (2 x xs)
  have "filter (\<lambda>p. fst p = Equal \<or> fst p = Inserted) (map (Pair Removed) (x # xs)) = []"
    "filter (\<lambda>p. fst p = Equal \<or> fst p = Removed) (map (Pair Removed) (x # xs)) = map (Pair Removed) (x # xs)"
    by (induction xs) simp_all
  then show ?case by (simp add: new_text_def old_text_def comp_def del: filter.simps list.map)
next
  case (3 x xs y ys)
  then show ?case by (simp add: new_text_def old_text_def)
qed

lemma merge_parts_texts:
  "new_text (merge_parts ps) = new_text ps \<and> old_text (merge_parts ps) = old_text ps"
  by (induction ps rule: merge_parts.induct) (auto simp: new_text_def old_text_def)

lemma record_texts_differ:
  "JSON_stringify2 (commit_record ts msg files parent) \<noteq> JSON_stringify (commit_record ts msg files parent)"
  by (simp add: commit_record_def JSON_stringify2_def newline_def quote_def)

lemma commit_Committed:
  assumes "commit sha1 now message s = (Committed commitId, s')"
  shows "\<exists>idx. commitId = hashObject sha1 (JSON_stringify (commit_record now message idx (getCurrentHead s)))
     \<and> objects s' = (objects s)(commitId \<mapsto> JSON_stringify2 (commit_record now message idx (getCurrentHead s)))
     \<and> work s' = work s"
proof -
  from commit_cases [OF assms]
  obtain raw idx where i: "index s = Some raw" "JSON_parse raw = Some idx" "length_is_0 idx = Inr False"
    by auto
  from commit_success [OF i, of sha1 now message] assms show ?thesis by auto
qed

lemma add_round_trip:
  assumes "work s f = Some T"
    and "objects s (hashObject sha1 T) = None \<or> objects s (hashObject sha1 T) = Some T"
  shows "getFileContent (snd (add sha1 f s)) (hashObject sha1 T) = Some T"
  using assms by (auto simp: add_def Let_def getFileContent_def updateStagingArea_frame)

section \<open>The claims\<close>

text \<open>
  C1. The claim asks that every object hashes to the name it is stored under. For the
  blobs of \<^verbatim>\<open>add\<close> this is so by construction (line 46 writes the text that line 37
  hashed). \<^verbatim>\<open>commit\<close> breaks it: line 91 hashes \<^verbatim>\<open>JSON.stringify(commitData)\<close>, line 93
  writes \<^verbatim>\<open>JSON.stringify(commitData, null, 2)\<close> under that digest, and the two texts
  differ for every commit record. What the code does at every successful commit:
\<close>

theorem commit_stores_other_text:
  assumes "commit sha1 now message s = (Committed commitId, s')"
  shows "\<exists>commitData. commitId = hashObject sha1 (JSON_stringify commitData)
     \<and> getCommitData s' commitId = Some (JSON_stringify2 commitData)
     \<and> JSON_stringify2 commitData \<noteq> JSON_stringify commitData"
proof -
  from commit_Committed [OF assms] obtain idx where
    "commitId = hashObject sha1 (JSON_stringify (commit_record now message idx (getCurrentHead s)))"
    "objects s' = (objects s)(commitId \<mapsto> JSON_stringify2 (commit_record now message idx (getCurrentHead s)))"
    by blast
  then show ?thesis using record_texts_differ [of now message idx "getCurrentHead s"]
    by (auto simp: getCommitData_def)
qed

theorem commit_stores_other_text_witness:
  "\<exists>s' stored. commit radix_digest ''2024-01-01T00:00:00.000Z'' ''first'' demo_staged
       = (Committed ''2b2e8cd89c2e1d31df6d24d7a6f578f91e46aa66'', s')
     \<and> getCommitData s' ''2b2e8cd89c2e1d31df6d24d7a6f578f91e46aa66'' = Some stored
     \<and> hashObject radix_digest stored = ''94d24abfabc463f33f1d91981a3dcc5a46d3d278''"
proof -
  let ?c = "commit radix_digest ''2024-01-01T00:00:00.000Z'' ''first'' demo_staged"
  let ?id = "''2b2e8cd89c2e1d31df6d24d7a6f578f91e46aa66''"
  have c: "fst ?c = Committed ?id"
    unfolding demo_staged_def demo_repo_def demo_work_def by code_simp
  then have e: "?c = (Committed ?id, snd ?c)" by (metis prod.collapse)
  from commit_stores_other_text [OF e] obtain stored where
    s: "getCommitData (snd ?c) ?id = Some stored" by blast
  have "hashObject radix_digest (the (getCommitData (snd ?c) ?id)) = ''94d24abfabc463f33f1d91981a3dcc5a46d3d278''"
    unfolding demo_staged_def demo_repo_def demo_work_def by code_simp
  then show ?thesis using e s by force
qed

text \<open>
  C2. The claim asks that a text staged by \<^verbatim>\<open>add\<close> is read back by its digest. The code
  does so when no object is stored under the digest yet, or the same text is
  (\<open>add_round_trip\<close>). After a commit it fails for the text that line 91 hashed: staging
  a file with that text finds an object under its digest (the record written by line
  93), writes nothing, and \<^verbatim>\<open>getFileContent\<close> returns the other text. No collision of
  the digest function is involved.
\<close>

theorem add_reads_back_other_text:
  assumes "index s = Some raw" and "JSON_parse raw = Some (JArr es)" and "es \<noteq> []"
  shows "let commitData = commit_record now message (JArr es) (getCurrentHead s);
             T = JSON_stringify commitData;
             s1 = snd (commit sha1 now message s);
             s2 = s1\<lparr>work := (work s1)(f \<mapsto> T)\<rparr>
         in fst (add sha1 f s2) = Some (hashObject sha1 T)
          \<and> getFileContent (snd (add sha1 f s2)) (hashObject sha1 T) = Some (JSON_stringify2 commitData)
          \<and> JSON_stringify2 commitData \<noteq> T"
proof -
  have l: "length_is_0 (JArr es) = Inr False" using assms(3) by simp
  show ?thesis
    unfolding Let_def
    using commit_success [OF assms(1,2) l, of sha1 now message]
      record_texts_differ [of now message "JArr es" "getCurrentHead s"]
    by (simp add: add_def Let_def getFileContent_def updateStagingArea_frame)
qed

theorem add_reads_back_other_text_witness:
  "let T = JSON_stringify (commit_record ''2024-01-01T00:00:00.000Z'' ''first''
             (entries [(''a.txt'', ''0000000000000000000000000000006b0e191f19'')]) None);
       s1 = snd (commit radix_digest ''2024-01-01T00:00:00.000Z'' ''first'' demo_staged);
       s2 = s1\<lparr>work := (work s1)(''c.json'' \<mapsto> T)\<rparr>
   in fst (add radix_digest ''c.json'' s2) = Some ''2b2e8cd89c2e1d31df6d24d7a6f578f91e46aa66''
    \<and> getFileContent (snd (add radix_digest ''c.json'' s2)) ''2b2e8cd89c2e1d31df6d24d7a6f578f91e46aa66''
        \<noteq> Some T"
proof -
  let ?es = "[entry ''a.txt'' ''0000000000000000000000000000006b0e191f19'']"
  have i: "index demo_staged = Some (JSON_stringify2 (JArr ?es))"
    unfolding demo_staged_def demo_repo_def demo_work_def by code_simp
  have p: "JSON_parse (JSON_stringify2 (JArr ?es)) = Some (JArr ?es)" by code_simp
  have n: "?es \<noteq> []" by simp
  have g: "getCurrentHead demo_staged = None"
    unfolding demo_staged_def demo_repo_def demo_work_def by code_simp
  have h: "hashObject radix_digest (JSON_stringify
      (commit_record ''2024-01-01T00:00:00.000Z'' ''first'' (JArr ?es) None))
     = ''2b2e8cd89c2e1d31df6d24d7a6f578f91e46aa66''" by code_simp
  from add_reads_back_other_text [OF i p n, of "''2024-01-01T00:00:00.000Z''" "''first''" radix_digest "''c.json''"]
  show ?thesis unfolding Let_def g h by (simp add: entries_def)
qed

text \<open>
  C3. Staging stores a content once. Over any sequence of \<^verbatim>\<open>add\<close> calls the object files
  written are pairwise different and none of them existed before, and the objects
  afterwards are the old ones and those written. When all the files staged hold the
  same text, every call prints the same digest, an object is stored under it, no other
  object appears, and the object is written once if it was absent and not at all if
  it was there.
\<close>

theorem add_stores_once:
  assumes "adds sha1 fs s = (ds, s')"
  shows "(\<exists>new. written s' = written s @ new \<and> distinct new
            \<and> set new \<inter> dom (objects s) = {}
            \<and> dom (objects s') = dom (objects s) \<union> set new)
    \<and> (\<forall>T. fs \<noteq> [] \<and> (\<forall>f \<in> set fs. work s f = Some T) \<longrightarrow>
          ds = replicate (length fs) (Some (hashObject sha1 T))
          \<and> getFileContent s' (hashObject sha1 T) \<noteq> None
          \<and> dom (objects s') = insert (hashObject sha1 T) (dom (objects s))
          \<and> written s' = written s @
               (if hashObject sha1 T \<in> dom (objects s) then [] else [hashObject sha1 T]))"
proof (intro conjI allI impI)
  show "\<exists>new. written s' = written s @ new \<and> distinct new
            \<and> set new \<inter> dom (objects s) = {}
            \<and> dom (objects s') = dom (objects s) \<union> set new"
    using adds_writes [of sha1 fs s] assms by simp
next
  fix T assume a: "fs \<noteq> [] \<and> (\<forall>f \<in> set fs. work s f = Some T)"
  then obtain f fs' where fs: "fs = f # fs'" by (cases fs) auto
  let ?d = "hashObject sha1 T"
  let ?s1 = "snd (add sha1 f s)"
  have w: "work s f = Some T" using a fs by simp
  have d1: "fst (add sha1 f s) = Some ?d" using w by (simp add: add_def Let_def)
  have o1: "objects ?s1 = (if ?d \<in> dom (objects s) then objects s else (objects s)(?d \<mapsto> T))"
    and w1: "written ?s1 = written s @ (if ?d \<in> dom (objects s) then [] else [?d])"
    using w by (auto simp: add_def Let_def updateStagingArea_frame split: option.splits)
  have p1: "?d \<in> dom (objects ?s1)" using o1 by auto
  have "\<forall>f \<in> set fs'. work ?s1 f = Some T" using a fs by (simp add: add_frame)
  from adds_stored [OF this p1] have r: "fst (adds sha1 fs' ?s1) = replicate (length fs') (Some ?d)"
    "objects (snd (adds sha1 fs' ?s1)) = objects ?s1" "written (snd (adds sha1 fs' ?s1)) = written ?s1"
    by simp_all
  have e: "ds = fst (add sha1 f s) # fst (adds sha1 fs' ?s1)" "s' = snd (adds sha1 fs' ?s1)"
    using assms fs adds_Cons [of sha1 f fs' s] by simp_all
  show "ds = replicate (length fs) (Some ?d)" using e d1 r fs by simp
  show "getFileContent s' ?d \<noteq> None" using e r p1 by (auto simp: getFileContent_def)
  show "dom (objects s') = insert ?d (dom (objects s))" using e r o1 by auto
  show "written s' = written s @ (if ?d \<in> dom (objects s) then [] else [?d])" using e r w1 by simp
qed

theorem add_stores_once_witness:
  "fst (adds radix_digest [''a.txt'', ''a.txt''] demo_repo)
     = [Some ''0000000000000000000000000000006b0e191f19'', Some ''0000000000000000000000000000006b0e191f19'']
   \<and> written (snd (adds radix_digest [''a.txt'', ''a.txt''] demo_repo))
     = [''0000000000000000000000000000006b0e191f19'']
   \<and> dom (objects (snd (adds radix_digest [''a.txt'', ''a.txt''] demo_repo)))
     = {''0000000000000000000000000000006b0e191f19''}"
proof -
  let ?a = "adds radix_digest [''a.txt'', ''a.txt''] demo_repo"
  have h: "hashObject radix_digest ''hello'' = ''0000000000000000000000000000006b0e191f19''"
    by code_simp
  have w: "\<forall>f \<in> set [''a.txt'', ''a.txt'']. work demo_repo f = Some ''hello''"
    by (simp add: demo_repo_def init_def empty_repo_def demo_work_def)
  have o: "dom (objects demo_repo) = {}" "written demo_repo = []"
    by (simp_all add: demo_repo_def init_def empty_repo_def)
  have "?a = (fst ?a, snd ?a)" by simp
  from add_stores_once [OF this] w show ?thesis
    by (simp add: h o del: adds.simps)
qed

text \<open>
  C4. \<^verbatim>\<open>updateStagingArea\<close> on an index of entries does what the spec's \<open>stage\<close> says:
  an entry for the path gets the new hash where it stands (the paths and their order
  stay), otherwise the new entry is appended at the end; the path then maps to the new
  hash and every other path to what it had. An index without repeated paths stays so,
  after one staging and after any sequence of stagings.
\<close>

theorem staging_upsert:
  assumes "index s = Some (JSON_stringify2 (entries phs))"
  shows "index (updateStagingArea filePath fileHash s)
           = Some (JSON_stringify2 (entries (stage_spec filePath fileHash phs)))
    \<and> (filePath \<in> fst ` set phs \<longrightarrow>
          map fst (stage_spec filePath fileHash phs) = map fst phs)
    \<and> (filePath \<notin> fst ` set phs \<longrightarrow>
          stage_spec filePath fileHash phs = phs @ [(filePath, fileHash)])
    \<and> (\<forall>q. map_of (stage_spec filePath fileHash phs) q
          = (if q = filePath then Some fileHash else map_of phs q))
    \<and> (distinct (map fst phs) \<longrightarrow> distinct (map fst (stage_spec filePath fileHash phs)))
    \<and> (distinct (map fst phs) \<longrightarrow> (\<forall>ops. \<exists>phs'.
          index (fold (\<lambda>(p, h). updateStagingArea p h) ops s) = Some (JSON_stringify2 (entries phs'))
          \<and> distinct (map fst phs')))"
  using updateStagingArea_entries [OF assms] stagings_entries [OF assms]
  by (simp add: map_fst_stage_spec stage_spec_append map_of_stage_spec)

theorem staging_upsert_witness:
  "index (updateStagingArea ''a.txt'' ''ff'' demo_staged)
     = Some (JSON_stringify2 (entries [(''a.txt'', ''ff'')]))
   \<and> index (updateStagingArea ''b.txt'' ''ff'' demo_staged)
     = Some (JSON_stringify2 (entries
          [(''a.txt'', ''0000000000000000000000000000006b0e191f19''), (''b.txt'', ''ff'')]))"
proof -
  let ?phs = "[(''a.txt'', ''0000000000000000000000000000006b0e191f19'')]"
  have i: "index demo_staged = Some (JSON_stringify2 (entries ?phs))"
    unfolding demo_staged_def demo_repo_def demo_work_def by code_simp
  from staging_upsert [OF i, of "''a.txt''" "''ff''"] staging_upsert [OF i, of "''b.txt''" "''ff''"]
  show ?thesis by simp
qed



text \<open>
  C6. With a staging index that is a non-empty array, \<^verbatim>\<open>commit\<close> builds the record
  from the time, the message, the staged entries and the HEAD read at the start (null
  when there is none), takes the digest of its serialization as the commit id, writes
  the record under that id (the text written parses back to the record), sets HEAD to
  the id, resets the index to the empty array, and reports the id.
\<close>

theorem commit_success_effects:
  assumes "index s = Some raw" and "JSON_parse raw = Some (JArr es)" and "es \<noteq> []"
  shows "let commitData = commit_record now message (JArr es) (getCurrentHead s);
             commitId = hashObject sha1 (JSON_stringify commitData)
         in get_prop commitData ''parent'' =
              Inr (Some (case getCurrentHead s of None \<Rightarrow> JNull | Some p \<Rightarrow> JStr p))
          \<and> get_prop commitData ''files'' = Inr (Some (JArr es))
          \<and> (\<exists>s'. commit sha1 now message s = (Committed commitId, s')
                \<and> objects s' = (objects s)(commitId \<mapsto> JSON_stringify2 commitData)
                \<and> JSON_parse (JSON_stringify2 commitData) = Some commitData
                \<and> head s' = Some commitId
                \<and> getCurrentHead s' = Some commitId
                \<and> index s' = Some (JSON_stringify2 (JArr []))
                \<and> JSON_parse (JSON_stringify2 (JArr [])) = Some (JArr [])
                \<and> work s' = work s)"
proof -
  let ?cd = "commit_record now message (JArr es) (getCurrentHead s)"
  let ?h = "hashObject sha1 (JSON_stringify ?cd)"
  have l: "length_is_0 (JArr es) = Inr False" using assms(3) by simp
  have w: "wf_json ?cd" using JSON_parse_wf [OF assms(2)] by (rule wf_commit_record)
  have a: "get_prop ?cd ''parent'' = Inr (Some (case getCurrentHead s of None \<Rightarrow> JNull | Some p \<Rightarrow> JStr p))"
    by (simp add: commit_record_def)
  have b: "get_prop ?cd ''files'' = Inr (Some (JArr es))"
    by (simp add: commit_record_def)
  have c: "JSON_parse (JSON_stringify2 ?cd) = Some ?cd" using w by (rule JSON_parse_stringify2)
  have d: "JSON_parse (JSON_stringify2 (JArr [])) = Some (JArr [])" by (rule JSON_parse_stringify2) simp
  have e: "getCurrentHead (s\<lparr>objects := (objects s)(?h \<mapsto> JSON_stringify2 ?cd),
       written := written s @ [?h], head := Some ?h, index := Some (JSON_stringify2 (JArr []))\<rparr>) = Some ?h"
    by (simp add: getCurrentHead_def trim_hashObject hashObject_nonempty)
  show ?thesis
    unfolding Let_def using a b c d e commit_success [OF assms(1,2) l, of sha1 now message]
    by simp
qed

theorem commit_success_effects_witness:
  "\<exists>s'. commit radix_digest ''2024-01-01T00:00:00.000Z'' ''first'' demo_staged
       = (Committed ''2b2e8cd89c2e1d31df6d24d7a6f578f91e46aa66'', s')
     \<and> head s' = Some ''2b2e8cd89c2e1d31df6d24d7a6f578f91e46aa66''
     \<and> index s' = Some ''[]''"
proof -
  let ?es = "[entry ''a.txt'' ''0000000000000000000000000000006b0e191f19'']"
  have i: "index demo_staged = Some (JSON_stringify2 (JArr ?es))"
    unfolding demo_staged_def demo_repo_def demo_work_def by code_simp
  have p: "JSON_parse (JSON_stringify2 (JArr ?es)) = Some (JArr ?es)" by code_simp
  have g: "getCurrentHead demo_staged = None"
    unfolding demo_staged_def demo_repo_def demo_work_def by code_simp
  have h: "hashObject radix_digest (JSON_stringify
      (commit_record ''2024-01-01T00:00:00.000Z'' ''first'' (JArr ?es) None))
     = ''2b2e8cd89c2e1d31df6d24d7a6f578f91e46aa66''" by code_simp
  have e: "JSON_stringify2 (JArr []) = ''[]''" by code_simp
  have n: "?es \<noteq> []" by simp
  from commit_success_effects [OF i p n, of "''2024-01-01T00:00:00.000Z''" "''first''" radix_digest]
  show ?thesis unfolding Let_def g h e by auto
qed

text \<open>
  C8. The parts of \<open>diffLines oldText newText\<close> of kind Equal or Inserted, concatenated in
  order, are the new text, and those of kind Equal or Removed are the old text.
\<close>

theorem diffLines_reconstructs:
  "new_text (diffLines oldText newText) = newText \<and> old_text (diffLines oldText newText) = oldText"
  by (simp add: diffLines_def merge_parts_texts edit_script_texts concat_split_lines)

text \<open>
  C10. \<^verbatim>\<open>getCurrentHead\<close> returns null when HEAD does not exist, is empty or holds
  white space only; otherwise it returns the content of HEAD without the white space
  at its two ends. Hence a commit created while it returns null has the parent null,
  and it returns null after \<^verbatim>\<open>init\<close> on a new repository and any number of stagings.
\<close>

theorem getCurrentHead_normalizes:
  "(head s = None \<longrightarrow> getCurrentHead s = None)
   \<and> (\<forall>h. head s = Some h \<and> (\<forall>c \<in> set h. js_space c) \<longrightarrow> getCurrentHead s = None)
   \<and> (\<forall>h. head s = Some h \<and> \<not> (\<forall>c \<in> set h. js_space c) \<longrightarrow>
         (\<exists>a t b. h = a @ t @ b \<and> (\<forall>c \<in> set a. js_space c) \<and> (\<forall>c \<in> set b. js_space c)
            \<and> t \<noteq> [] \<and> \<not> js_space (hd t) \<and> \<not> js_space (last t)
            \<and> getCurrentHead s = Some t))
   \<and> (\<forall>sha1 now message commitId s'.
         getCurrentHead s = None \<and> commit sha1 now message s = (Committed commitId, s') \<longrightarrow>
         (\<exists>commitData. getCommitData s' commitId = Some (JSON_stringify2 commitData)
            \<and> JSON_parse (JSON_stringify2 commitData) = Some commitData
            \<and> get_prop commitData ''parent'' = Inr (Some JNull)))
   \<and> (\<forall>sha1 w fs. getCurrentHead (snd (adds sha1 fs (init (empty_repo w)))) = None)"
proof (intro conjI allI impI)
  assume "head s = None"
  then show "getCurrentHead s = None" by (simp add: getCurrentHead_def)
next
  fix h assume "head s = Some h \<and> (\<forall>c \<in> set h. js_space c)"
  then show "getCurrentHead s = None" by (simp add: getCurrentHead_def trim_empty_iff)
next
  fix h assume a: "head s = Some h \<and> \<not> (\<forall>c \<in> set h. js_space c)"
  then have t: "trim h \<noteq> []" using trim_empty_iff [of h] by simp
  from trim_decomp [of h] obtain x y where "h = x @ trim h @ y"
    "\<forall>c \<in> set x. js_space c" "\<forall>c \<in> set y. js_space c" by blast
  moreover have "getCurrentHead s = Some (trim h)" using a t by (simp add: getCurrentHead_def)
  ultimately show "\<exists>a t b. h = a @ t @ b \<and> (\<forall>c \<in> set a. js_space c) \<and> (\<forall>c \<in> set b. js_space c)
            \<and> t \<noteq> [] \<and> \<not> js_space (hd t) \<and> \<not> js_space (last t)
            \<and> getCurrentHead s = Some t"
    using t trim_ends [OF t] by blast
next
  fix sha1 now message commitId s'
  assume a: "getCurrentHead s = None \<and> commit sha1 now message s = (Committed commitId, s')"
  from commit_cases [of sha1 now message s "Committed commitId" s'] a
  obtain raw idx where i: "index s = Some raw" "JSON_parse raw = Some idx" "length_is_0 idx = Inr False"
    by auto
  let ?cd = "commit_record now message idx None"
  have "wf_json ?cd" using JSON_parse_wf [OF i(2)] by (rule wf_commit_record)
  then have "JSON_parse (JSON_stringify2 ?cd) = Some ?cd" by (rule JSON_parse_stringify2)
  moreover have "get_prop ?cd ''parent'' = Inr (Some JNull)" by (simp add: commit_record_def)
  moreover have "getCommitData s' commitId = Some (JSON_stringify2 ?cd)"
    using commit_success [OF i, of sha1 now message] a by (auto simp: getCommitData_def)
  ultimately show "\<exists>commitData. getCommitData s' commitId = Some (JSON_stringify2 commitData)
            \<and> JSON_parse (JSON_stringify2 commitData) = Some commitData
            \<and> get_prop commitData ''parent'' = Inr (Some JNull)" by blast
next
  fix sha1 w fs
  have "head (snd (adds sha1 fs (init (empty_repo w)))) = Some []"
    using adds_frame [of sha1 fs "init (empty_repo w)"] by (simp add: init_def empty_repo_def)
  then show "getCurrentHead (snd (adds sha1 fs (init (empty_repo w)))) = None"
    by (simp add: getCurrentHead_def trim_def)
qed

theorem getCurrentHead_normalizes_witness:
  "getCurrentHead (demo_repo\<lparr>head := Some [CHR 0x20, CHR ''a'', CHR ''b'', CHR 0x0A]\<rparr>) = Some ''ab''
   \<and> getCurrentHead (demo_repo\<lparr>head := Some [CHR 0x20, CHR 0x0A]\<rparr>) = None
   \<and> getCurrentHead (demo_repo\<lparr>head := None\<rparr>) = None
   \<and> (\<exists>s' commitData.
         commit radix_digest ''2024-01-01T00:00:00.000Z'' ''first'' demo_staged
           = (Committed ''2b2e8cd89c2e1d31df6d24d7a6f578f91e46aa66'', s')
         \<and> getCommitData s' ''2b2e8cd89c2e1d31df6d24d7a6f578f91e46aa66'' = Some (JSON_stringify2 commitData)
         \<and> get_prop commitData ''parent'' = Inr (Some JNull))"
proof -
  let ?s1 = "demo_repo\<lparr>head := Some [CHR 0x20, CHR ''a'', CHR ''b'', CHR 0x0A]\<rparr>"
  let ?s2 = "demo_repo\<lparr>head := Some [CHR 0x20, CHR 0x0A]\<rparr>"
  let ?s3 = "demo_repo\<lparr>head := None\<rparr>"
  let ?c = "commit radix_digest ''2024-01-01T00:00:00.000Z'' ''first'' demo_staged"
  have 1: "getCurrentHead ?s1 = Some ''ab''"
    by (simp add: getCurrentHead_def trim_def js_space_def)
  have 2: "getCurrentHead ?s2 = None"
    using getCurrentHead_normalizes [of ?s2] by (simp add: js_space_def)
  have 3: "getCurrentHead ?s3 = None"
    using getCurrentHead_normalizes [of ?s3] by simp
  have e: "demo_staged = snd (adds radix_digest [''a.txt''] (init (empty_repo demo_work)))"
    by (simp add: demo_staged_def demo_repo_def split: prod.splits)
  have g: "getCurrentHead demo_staged = None"
    unfolding e using getCurrentHead_normalizes [of demo_repo] by blast
  have c: "fst ?c = Committed ''2b2e8cd89c2e1d31df6d24d7a6f578f91e46aa66''"
    unfolding demo_staged_def demo_repo_def demo_work_def by code_simp
  then have "?c = (Committed ''2b2e8cd89c2e1d31df6d24d7a6f578f91e46aa66'', snd ?c)"
    by (metis prod.collapse)
  with getCurrentHead_normalizes [of demo_staged] g
  have "\<exists>commitData. getCommitData (snd ?c) ''2b2e8cd89c2e1d31df6d24d7a6f578f91e46aa66''
        = Some (JSON_stringify2 commitData) \<and> get_prop commitData ''parent'' = Inr (Some JNull)"
    by blast
  with \<open>?c = (Committed ''2b2e8cd89c2e1d31df6d24d7a6f578f91e46aa66'', snd ?c)\<close> 1 2 3
  show ?thesis by blast
qed

end
